theory Spec2Isabelle
  imports Main "HOL-Library.Word"
begin

unbundle bit_operations_syntax

section \<open>Script classifier (package vm, contract checks)\<close>

subsection \<open>Bytes, opcodes and the constants the classifier is compiled against\<close>

type_synonym byte = "8 word"
type_synonym uint32 = "32 word"

text \<open>Go's \<open>opcode.Opcode\<close> is a named byte type.\<close>

type_synonym opcode = byte

text \<open>
  The opcode table (package \<open>opcode\<close>), \<open>MaxArraySize\<close> (package \<open>vm\<close>) and the
  two interop identifiers computed by \<open>emit.InteropNameToID\<close> are declared in files
  that are missing from the sources. They are parameters of the model: every function
  below takes the record of constants it is compiled against.
\<close>

record vmconsts =
  PUSHBYTES1 :: opcode
  PUSHBYTES2 :: opcode
  PUSHDATA1 :: opcode
  PUSHNULL :: opcode
  PUSH1 :: opcode
  RET :: opcode
  SYSCALL :: opcode
  MaxArraySize :: int
  verifyInteropID :: uint32
  multisigInteropID :: uint32

text \<open>
  \<open>PUSH T k\<close> is \<open>opcode.PUSHk\<close> for \<open>1 \<le> k \<le> 16\<close>: \<open>PUSH2\<close> .. \<open>PUSH16\<close> are
  the fifteen opcodes following \<open>PUSH1\<close>, which is what \<open>int(instr-opcode.PUSH1) + 1\<close> in
  \<open>getNumOfThingsFromInstr\<close> relies on. \<open>PUSHn\<close> lists the sixteen of them, as the
  \<open>case\<close> of that function does.
\<close>

definition PUSH :: "vmconsts \<Rightarrow> nat \<Rightarrow> opcode" where
  "PUSH T k = PUSH1 T + of_nat (k - 1)"

definition PUSHn :: "vmconsts \<Rightarrow> opcode list" where
  "PUSHn T = map (PUSH T) [1..<17]"

text \<open>The opcode constants name different instructions.\<close>

definition distinct_opcodes :: "vmconsts \<Rightarrow> bool" where
  "distinct_opcodes T \<longleftrightarrow>
     distinct ([PUSHBYTES1 T, PUSHBYTES2 T, PUSHDATA1 T, PUSHNULL T, RET T, SYSCALL T] @ PUSHn T)"

subsection \<open>The instruction decoder\<close>

record Context =
  prog :: "byte list"
  ip :: nat

definition NewContext :: "byte list \<Rightarrow> Context" where
  "NewContext script = \<lparr>prog = script, ip = 0\<rparr>"

text \<open>
  Modelled from the spec: the fixed operand size of an opcode, part of the instruction
  decoder (\<open>vm.Context\<close>), which is missing from the sources. The spec names the
  small-integer pushes, \<open>PUSHNULL\<close> and \<open>RET\<close> (no operand), the 1- and 2-byte
  immediate pushes and \<open>SYSCALL\<close> with its 32-bit identifier; every other opcode is
  unknown to it (\<open>None\<close>). \<open>PUSHDATA1\<close> carries a length-prefixed operand and is
  handled by \<open>Next\<close> itself.
\<close>

definition operand_size :: "vmconsts \<Rightarrow> opcode \<Rightarrow> nat option" where
  "operand_size T op =
     (if op = PUSHBYTES1 T then Some 1
      else if op = PUSHBYTES2 T then Some 2
      else if op = SYSCALL T then Some 4
      else if op = PUSHNULL T \<or> op = RET T \<or> op \<in> set (PUSHn T) then Some 0
      else None)"

text \<open>
  Modelled from the spec: \<open>Context.Next\<close>, the instruction decoder, missing from the
  sources. Given the buffer and the cursor it returns the opcode and the operand bytes
  of the next instruction and advances the cursor past it; an unknown opcode, a
  truncated operand and the end of the script are errors (\<open>None\<close> stands for
  \<open>err != nil\<close>), and an error leaves the cursor where it is, so that decoding stops
  there for good.
\<close>

definition Next :: "vmconsts \<Rightarrow> Context \<Rightarrow> (opcode \<times> byte list) option \<times> Context" where
  "Next T c =
     (let p = prog c; i = ip c in
      if length p \<le> i then (None, c)
      else
        let op = p ! i in
        if op = PUSHDATA1 T then
          (if length p \<le> i + 1 then (None, c)
           else
             let n = unat (p ! (i + 1)) in
             if length p < i + 2 + n then (None, c)
             else (Some (op, take n (drop (i + 2) p)), c\<lparr>ip := i + 2 + n\<rparr>))
        else
          (case operand_size T op of
             None \<Rightarrow> (None, c)
           | Some k \<Rightarrow>
               if length p < i + 1 + k then (None, c)
               else (Some (op, take k (drop (i + 1) p)), c\<lparr>ip := i + 1 + k\<rparr>)))"

subsection \<open>Run-time faults of the classifier's own code\<close>

text \<open>
  An index expression or a \<open>binary.LittleEndian\<close> read on a slice that is too short
  panics in Go. A function that can reach one returns \<open>fault + result\<close>.
\<close>

datatype fault = IndexOutOfRange

definition LittleEndian_Uint16 :: "byte list \<Rightarrow> fault + nat" where
  "LittleEndian_Uint16 b =
     (if length b < 2 then Inl IndexOutOfRange
      else Inr (unat (b ! 0) + 256 * unat (b ! 1)))"

definition LittleEndian_Uint32 :: "byte list \<Rightarrow> fault + uint32" where
  "LittleEndian_Uint32 b =
     (if length b < 4 then Inl IndexOutOfRange
      else Inr (ucast (b ! 0) OR push_bit 8 (ucast (b ! 1)) OR
                push_bit 16 (ucast (b ! 2)) OR push_bit 24 (ucast (b ! 3))))"

subsection \<open>getNumOfThingsFromInstr\<close>

definition getNumOfThingsFromInstr :: "vmconsts \<Rightarrow> opcode \<Rightarrow> byte list \<Rightarrow> fault + (int \<times> bool)" where
  "getNumOfThingsFromInstr T instr param =
     (let check = (\<lambda>nthings :: int.
            if nthings < 1 \<or> nthings > MaxArraySize T then Inr (0, False)
            else Inr (nthings, True))
      in
        if instr \<in> set (PUSHn T) then check (int (unat (instr - PUSH1 T)) + 1)
        else if instr = PUSHBYTES1 T then
          (if param = [] then Inl IndexOutOfRange else check (int (unat (param ! 0))))
        else if instr = PUSHBYTES2 T then
          (case LittleEndian_Uint16 param of
             Inl f \<Rightarrow> Inl f
           | Inr v \<Rightarrow> check (int v))
        else Inr (0, False))"

subsection \<open>ParseMultiSigContract and IsMultiSigContract\<close>

text \<open>
  The \<open>for\<close> loop that collects the public keys. \<open>None\<close> is an early
  \<open>return nil, false\<close>; \<open>Some\<close> is the state at \<open>break\<close>: the instruction that
  ended the loop, its operand, the context, the keys and their number.
\<close>

function keys_loop ::
  "vmconsts \<Rightarrow> Context \<Rightarrow> byte list list \<Rightarrow> int \<Rightarrow>
     (opcode \<times> byte list \<times> Context \<times> byte list list \<times> int) option" where
  "keys_loop T ctx pubs nkeys =
     (case Next T ctx of
        (None, _) \<Rightarrow> None
      | (Some (instr, param), ctx') \<Rightarrow>
          if instr \<noteq> PUSHDATA1 T then Some (instr, param, ctx', pubs, nkeys)
          else if length param < 33 then None
          else if nkeys + 1 > MaxArraySize T then None
          else keys_loop T ctx' (pubs @ [param]) (nkeys + 1))"
  by pat_completeness auto
termination
  by (relation "measure (\<lambda>(T, ctx, pubs, nkeys). nat (MaxArraySize T - nkeys))") auto

declare keys_loop.simps [simp del]

definition ParseMultiSigContract :: "vmconsts \<Rightarrow> byte list \<Rightarrow> fault + (byte list list \<times> bool)" where
  "ParseMultiSigContract T script =
     (case Next T (NewContext script) of
        (None, _) \<Rightarrow> Inr ([], False)
      | (Some (instr, param), ctx) \<Rightarrow>
     (case getNumOfThingsFromInstr T instr param of
        Inl f \<Rightarrow> Inl f
      | Inr (nsigs, ok) \<Rightarrow>
     if \<not> ok then Inr ([], False) else
     (case keys_loop T ctx [] 0 of
        None \<Rightarrow> Inr ([], False)
      | Some (instr, param, ctx, pubs, nkeys) \<Rightarrow>
     if nkeys < nsigs then Inr ([], False) else
     (case getNumOfThingsFromInstr T instr param of
        Inl f \<Rightarrow> Inl f
      | Inr (nkeys2, ok) \<Rightarrow>
     if \<not> ok then Inr ([], False) else
     if nkeys2 \<noteq> nkeys then Inr ([], False) else
     (case Next T ctx of
        (None, _) \<Rightarrow> Inr ([], False)
      | (Some (instr, _), ctx) \<Rightarrow>
     if instr \<noteq> PUSHNULL T then Inr ([], False) else
     (case Next T ctx of
        (None, _) \<Rightarrow> Inr ([], False)
      | (Some (instr, param), ctx) \<Rightarrow>
     if instr \<noteq> SYSCALL T then Inr ([], False) else
     (case LittleEndian_Uint32 param of
        Inl f \<Rightarrow> Inl f
      | Inr v \<Rightarrow>
     if v \<noteq> multisigInteropID T then Inr ([], False) else
     (case Next T ctx of
        (None, _) \<Rightarrow> Inr ([], False)
      | (Some (instr, _), ctx) \<Rightarrow>
     if instr \<noteq> RET T \<or> ip ctx \<noteq> length script then Inr ([], False)
     else Inr (pubs, True)))))))))"

definition IsMultiSigContract :: "vmconsts \<Rightarrow> byte list \<Rightarrow> fault + bool" where
  "IsMultiSigContract T script =
     (case ParseMultiSigContract T script of
        Inl f \<Rightarrow> Inl f
      | Inr (_, ok) \<Rightarrow> Inr ok)"

subsection \<open>IsSignatureContract and IsStandardContract\<close>

definition IsSignatureContract :: "vmconsts \<Rightarrow> byte list \<Rightarrow> fault + bool" where
  "IsSignatureContract T script =
     (if length script \<noteq> 41 then Inr False else
     (case Next T (NewContext script) of
        (None, _) \<Rightarrow> Inr False
      | (Some (instr, param), ctx) \<Rightarrow>
     if instr \<noteq> PUSHDATA1 T \<or> length param \<noteq> 33 then Inr False else
     (case Next T ctx of
        (None, _) \<Rightarrow> Inr False
      | (Some (instr, _), ctx) \<Rightarrow>
     if instr \<noteq> PUSHNULL T then Inr False else
     (case Next T ctx of
        (None, _) \<Rightarrow> Inr False
      | (Some (instr, param), ctx) \<Rightarrow>
     if instr \<noteq> SYSCALL T then Inr False else
     (case LittleEndian_Uint32 param of
        Inl f \<Rightarrow> Inl f
      | Inr v \<Rightarrow>
     if v \<noteq> verifyInteropID T then Inr False else Inr True)))))"

text \<open>\<open>||\<close> evaluates its right operand only when the left one is false.\<close>

definition IsStandardContract :: "vmconsts \<Rightarrow> byte list \<Rightarrow> fault + bool" where
  "IsStandardContract T script =
     (case IsSignatureContract T script of
        Inl f \<Rightarrow> Inl f
      | Inr True \<Rightarrow> Inr True
      | Inr False \<Rightarrow> IsMultiSigContract T script)"

section \<open>Historic invocation (package invoker)\<close>

type_synonym Uint160 = "160 word"
type_synonym Uint256 = "256 word"

text \<open>
  \<open>historicConverter\<close> keeps its target in three pointer fields; \<open>nil\<close> is \<open>None\<close>.
  The client is an interface value, kept abstract.
\<close>

record 'c historicConverter =
  client :: 'c
  block :: "Uint256 option"
  height :: "uint32 option"
  root :: "Uint256 option"

record ('c, 's) Invoker =
  invoker_client :: 'c
  signers :: 's

definition New :: "'c \<Rightarrow> 's \<Rightarrow> ('c, 's) Invoker" where
  "New c sg = \<lparr>invoker_client = c, signers = sg\<rparr>"

definition NewHistoricAtBlock :: "Uint256 \<Rightarrow> 'c \<Rightarrow> 's \<Rightarrow> ('c historicConverter, 's) Invoker" where
  "NewHistoricAtBlock b c sg = New \<lparr>client = c, block = Some b, height = None, root = None\<rparr> sg"

definition NewHistoricAtHeight :: "uint32 \<Rightarrow> 'c \<Rightarrow> 's \<Rightarrow> ('c historicConverter, 's) Invoker" where
  "NewHistoricAtHeight h c sg = New \<lparr>client = c, block = None, height = Some h, root = None\<rparr> sg"

definition NewHistoricWithState :: "Uint256 \<Rightarrow> 'c \<Rightarrow> 's \<Rightarrow> ('c historicConverter, 's) Invoker" where
  "NewHistoricWithState r c sg = New \<lparr>client = c, block = None, height = None, root = Some r\<rparr> sg"

text \<open>
  What a dispatch method does: it forwards to one method of \<open>RPCInvokeHistoric\<close>
  with the stored target in front of its own arguments, or it panics. The forwarded
  call is a value; \<open>'s\<close>, \<open>'p\<close> and \<open>'w\<close> are the signers, parameters and witnesses.
\<close>

datatype ('s, 'p, 'w) historic_call =
    InvokeScriptAtBlock Uint256 "byte list" 's
  | InvokeScriptAtHeight uint32 "byte list" 's
  | InvokeScriptWithState Uint256 "byte list" 's
  | InvokeFunctionAtBlock Uint256 Uint160 string 'p 's
  | InvokeFunctionAtHeight uint32 Uint160 string 'p 's
  | InvokeFunctionWithState Uint256 Uint160 string 'p 's
  | InvokeContractVerifyAtBlock Uint256 Uint160 'p 's 'w
  | InvokeContractVerifyAtHeight uint32 Uint160 'p 's 'w
  | InvokeContractVerifyWithState Uint256 Uint160 'p 's 'w

datatype panic = UninitializedHistoricConverter

definition InvokeScript ::
  "'c historicConverter \<Rightarrow> byte list \<Rightarrow> 's \<Rightarrow> panic + ('s, 'p, 'w) historic_call" where
  "InvokeScript h script sg =
     (case block h of Some b \<Rightarrow> Inr (InvokeScriptAtBlock b script sg) | None \<Rightarrow>
     (case height h of Some n \<Rightarrow> Inr (InvokeScriptAtHeight n script sg) | None \<Rightarrow>
     (case root h of Some r \<Rightarrow> Inr (InvokeScriptWithState r script sg) | None \<Rightarrow>
      Inl UninitializedHistoricConverter)))"

definition InvokeFunction ::
  "'c historicConverter \<Rightarrow> Uint160 \<Rightarrow> string \<Rightarrow> 'p \<Rightarrow> 's \<Rightarrow> panic + ('s, 'p, 'w) historic_call" where
  "InvokeFunction h contract operation params sg =
     (case block h of Some b \<Rightarrow> Inr (InvokeFunctionAtBlock b contract operation params sg) | None \<Rightarrow>
     (case height h of Some n \<Rightarrow> Inr (InvokeFunctionAtHeight n contract operation params sg) | None \<Rightarrow>
     (case root h of Some r \<Rightarrow> Inr (InvokeFunctionWithState r contract operation params sg) | None \<Rightarrow>
      Inl UninitializedHistoricConverter)))"

definition InvokeContractVerify ::
  "'c historicConverter \<Rightarrow> Uint160 \<Rightarrow> 'p \<Rightarrow> 's \<Rightarrow> 'w \<Rightarrow> panic + ('s, 'p, 'w) historic_call" where
  "InvokeContractVerify h contract params sg witnesses =
     (case block h of Some b \<Rightarrow> Inr (InvokeContractVerifyAtBlock b contract params sg witnesses) | None \<Rightarrow>
     (case height h of Some n \<Rightarrow> Inr (InvokeContractVerifyAtHeight n contract params sg witnesses) | None \<Rightarrow>
     (case root h of Some r \<Rightarrow> Inr (InvokeContractVerifyWithState r contract params sg witnesses) | None \<Rightarrow>
      Inl UninitializedHistoricConverter)))"

text \<open>The number of target fields that are not \<open>nil\<close>.\<close>

definition targets_set :: "'c historicConverter \<Rightarrow> nat" where
  "targets_set h =
     (if block h = None then 0 else 1) + (if height h = None then 0 else 1) +
     (if root h = None then 0 else 1)"

section \<open>Manifests and permissions (package manifest)\<close>

text \<open>
  The sources hold the tests of package \<open>manifest\<close> only. The definitions of this
  section follow the description of the permission engine in the specification.
\<close>

type_synonym PublicKey = "byte list"

record 'sig Group =
  PublicKey :: PublicKey
  Signature :: 'sig

text \<open>
  Modelled from the spec: the target and the method set of a \<open>Permission\<close>
  (\<open>manifest.Permission\<close> is missing from the sources), as the tagged variants
  \<open>Wildcard | Hash(id) | Group(key)\<close> and \<open>Wildcard | Set(names)\<close>.
\<close>

datatype PermissionDesc = PermissionWildcard | PermissionHash Uint160 | PermissionGroup PublicKey

datatype WildStrings = AnyMethod | Restricted "string list"

record Permission =
  Contract :: PermissionDesc
  Methods :: WildStrings

text \<open>
  Modelled from the spec: \<open>manifest.Manifest\<close>, missing from the sources, with the
  fields the permission engine reads and the informational name, standards and trusts;
  the ABI and the extra metadata have no role in it and are left out.
\<close>

record 'sig Manifest =
  Name :: string
  Groups :: "'sig Group list"
  SupportedStandards :: "string list"
  Permissions :: "Permission list"
  Trusts :: "Uint160 list"

text \<open>
  Modelled from the spec: \<open>NewPermission\<close> and \<open>DefaultManifest\<close>, missing from the
  sources. A new permission allows every method; a manifest built with no
  explicit permission list has the single Wildcard/Wildcard permission and empty groups,
  trusts and standards.
\<close>

definition NewPermission :: "PermissionDesc \<Rightarrow> Permission" where
  "NewPermission t = \<lparr>Contract = t, Methods = AnyMethod\<rparr>"

definition DefaultManifest :: "string \<Rightarrow> 'sig Manifest" where
  "DefaultManifest n =
     \<lparr>Name = n, Groups = [], SupportedStandards = [],
      Permissions = [NewPermission PermissionWildcard], Trusts = []\<rparr>"

text \<open>
  Modelled from the spec: \<open>Manifest.IsValid\<close>, missing from the sources. Every group
  entry's signature is verified against the contract identity with the entry's public
  key; the signature verification primitive \<open>verify publicKey message signature\<close> is an
  external collaborator and a parameter here, and the message is the identity (its byte
  representation determines it). The scan stops at the first entry that fails.
\<close>

fun groups_valid :: "(PublicKey \<Rightarrow> Uint160 \<Rightarrow> 'sig \<Rightarrow> bool) \<Rightarrow> Uint160 \<Rightarrow> 'sig Group list \<Rightarrow> bool" where
  "groups_valid verify h [] = True"
| "groups_valid verify h (g # gs) =
     (if verify (PublicKey g) h (Signature g) then groups_valid verify h gs else False)"

definition IsValid :: "(PublicKey \<Rightarrow> Uint160 \<Rightarrow> 'sig \<Rightarrow> bool) \<Rightarrow> 'sig Manifest \<Rightarrow> Uint160 \<Rightarrow> bool" where
  "IsValid verify m h = groups_valid verify h (Groups m)"

text \<open>
  Modelled from the spec: \<open>Permission.IsAllowed\<close>, missing from the sources. The
  identity part depends on the target variant; for a group it scans the caller's groups
  for the stored key. If the identity matches, the method matches when the method set is
  the wildcard or holds the name.
\<close>

fun has_group :: "PublicKey \<Rightarrow> 'sig Group list \<Rightarrow> bool" where
  "has_group k [] = False"
| "has_group k (g # gs) = (if PublicKey g = k then True else has_group k gs)"

fun identity_matches :: "PermissionDesc \<Rightarrow> Uint160 \<Rightarrow> 'sig Manifest \<Rightarrow> bool" where
  "identity_matches PermissionWildcard h m = True"
| "identity_matches (PermissionHash t) h m = (h = t)"
| "identity_matches (PermissionGroup k) h m = has_group k (Groups m)"

fun method_matches :: "WildStrings \<Rightarrow> string \<Rightarrow> bool" where
  "method_matches AnyMethod method = True"
| "method_matches (Restricted names) method = (method \<in> set names)"

definition IsAllowed :: "Permission \<Rightarrow> Uint160 \<Rightarrow> 'sig Manifest \<Rightarrow> string \<Rightarrow> bool" where
  "IsAllowed p h m method =
     (if identity_matches (Contract p) h m then method_matches (Methods p) method else False)"

text \<open>
  Modelled from the spec: \<open>Manifest.CanCall\<close>, missing from the sources. The permission
  entries of the target manifest are tried in declaration order and the first allowed
  one ends the scan.
\<close>

fun any_allowed :: "Permission list \<Rightarrow> Uint160 \<Rightarrow> 'sig Manifest \<Rightarrow> string \<Rightarrow> bool" where
  "any_allowed [] h m method = False"
| "any_allowed (p # ps) h m method =
     (if IsAllowed p h m method then True else any_allowed ps h m method)"

definition CanCall :: "Uint160 \<Rightarrow> 'sig Manifest \<Rightarrow> 'sig2 Manifest \<Rightarrow> string \<Rightarrow> bool" where
  "CanCall callerIdentity callerManifest targetManifest method =
     any_allowed (Permissions targetManifest) callerIdentity callerManifest method"

section \<open>The canonical scripts\<close>

text \<open>\<open>binary.LittleEndian.PutUint32\<close>: the four bytes of an identifier.\<close>

definition PutUint32 :: "uint32 \<Rightarrow> byte list" where
  "PutUint32 v = [ucast v, ucast (drop_bit 8 v), ucast (drop_bit 16 v), ucast (drop_bit 24 v)]"

text \<open>
  The bytes of one instruction, and the operands the decoder can return with an opcode:
  \<open>PUSHDATA1\<close> has a one-byte length in front of at most 255 operand bytes.
\<close>

definition enc :: "vmconsts \<Rightarrow> opcode \<Rightarrow> byte list \<Rightarrow> byte list" where
  "enc T op param =
     (if op = PUSHDATA1 T then op # of_nat (length param) # param else op # param)"

definition valid_instr :: "vmconsts \<Rightarrow> opcode \<Rightarrow> byte list \<Rightarrow> bool" where
  "valid_instr T op param \<longleftrightarrow>
     (if op = PUSHDATA1 T then length param < 256
      else operand_size T op = Some (length param))"

text \<open>
  A numeric push of the grammar: one of \<open>PUSH1\<close> .. \<open>PUSH16\<close>, a 1-byte immediate or a
  2-byte little-endian immediate; its value, its opcode, its operand and its bytes.
\<close>

datatype numpush = SmallInt nat | Imm1 byte | Imm2 byte byte

fun numpush_ok :: "numpush \<Rightarrow> bool" where
  "numpush_ok (SmallInt k) = (1 \<le> k \<and> k \<le> 16)"
| "numpush_ok (Imm1 b) = True"
| "numpush_ok (Imm2 lo hi) = True"

fun numval :: "numpush \<Rightarrow> int" where
  "numval (SmallInt k) = int k"
| "numval (Imm1 b) = int (unat b)"
| "numval (Imm2 lo hi) = int (unat lo + 256 * unat hi)"

fun push_opcode :: "vmconsts \<Rightarrow> numpush \<Rightarrow> opcode" where
  "push_opcode T (SmallInt k) = PUSH T k"
| "push_opcode T (Imm1 b) = PUSHBYTES1 T"
| "push_opcode T (Imm2 lo hi) = PUSHBYTES2 T"

fun push_operand :: "numpush \<Rightarrow> byte list" where
  "push_operand (SmallInt k) = []"
| "push_operand (Imm1 b) = [b]"
| "push_operand (Imm2 lo hi) = [lo, hi]"

definition push_bytes :: "vmconsts \<Rightarrow> numpush \<Rightarrow> byte list" where
  "push_bytes T e = push_opcode T e # push_operand e"

definition pushdata1 :: "vmconsts \<Rightarrow> byte list \<Rightarrow> byte list" where
  "pushdata1 T key = PUSHDATA1 T # of_nat (length key) # key"

text \<open>
  Modelled from the spec: the two canonical verification scripts of the grammar in the
  description of the script classifier; the functions that build them are missing from
  the sources. The multi-signature script is \<open>push(m)\<close>, one \<open>PUSHDATA1\<close> per key,
  \<open>push(n)\<close>, \<open>PUSHNULL\<close>, \<open>SYSCALL\<close> with the multisig identifier, \<open>RET\<close>; the
  signature script is \<open>PUSHDATA1\<close> with the key, \<open>PUSHNULL\<close>, \<open>SYSCALL\<close> with the
  verify identifier.
\<close>

definition multisig_script :: "vmconsts \<Rightarrow> numpush \<Rightarrow> byte list list \<Rightarrow> numpush \<Rightarrow> byte list" where
  "multisig_script T m keys n =
     push_bytes T m @ concat (map (pushdata1 T) keys) @ push_bytes T n @
     [PUSHNULL T, SYSCALL T] @ PutUint32 (multisigInteropID T) @ [RET T]"

definition signature_script :: "vmconsts \<Rightarrow> byte list \<Rightarrow> byte list" where
  "signature_script T key =
     pushdata1 T key @ [PUSHNULL T, SYSCALL T] @ PutUint32 (verifyInteropID T)"

text \<open>
  The conditions of the grammar on the counts and the keys: the threshold is at least 1
  and at most the number of keys, the second count is the number of keys, which is at
  most \<open>MaxArraySize\<close>, and every key has at least 33 bytes.
\<close>

definition multisig_accepts :: "vmconsts \<Rightarrow> numpush \<Rightarrow> byte list list \<Rightarrow> numpush \<Rightarrow> bool" where
  "multisig_accepts T m keys n \<longleftrightarrow>
     1 \<le> numval m \<and> numval m \<le> int (length keys) \<and> numval n = int (length keys) \<and>
     int (length keys) \<le> MaxArraySize T \<and> list_all (\<lambda>k. 33 \<le> length k) keys"

text \<open>The two templates as predicates on a byte buffer.\<close>

definition signature_template :: "vmconsts \<Rightarrow> byte list \<Rightarrow> bool" where
  "signature_template T b \<longleftrightarrow> length b = 41 \<and> b = signature_script T (take 33 (drop 2 b))"

definition multisig_template :: "vmconsts \<Rightarrow> byte list \<Rightarrow> bool" where
  "multisig_template T b \<longleftrightarrow>
     (\<exists>m n keys. numpush_ok m \<and> numpush_ok n \<and> list_all (\<lambda>k. length k < 256) keys \<and>
        multisig_accepts T m keys n \<and> b = multisig_script T m keys n)"

text \<open>
  A table of constants with pairwise different opcodes, to run the model on concrete
  scripts.
\<close>

definition sample_consts :: vmconsts where
  "sample_consts =
     \<lparr>PUSHBYTES1 = 0x01, PUSHBYTES2 = 0x02, PUSHDATA1 = 0x4C, PUSHNULL = 0x50, PUSH1 = 0x51,
      RET = 0x66, SYSCALL = 0x68, MaxArraySize = 1024,
      verifyInteropID = 0x01020304, multisigInteropID = 0x05060708\<rparr>"

text \<open>The stages of \<open>ParseMultiSigContract\<close> after the key loop, named for the proofs.\<close>

definition ret_check :: "vmconsts \<Rightarrow> byte list \<Rightarrow> byte list list \<Rightarrow> Context \<Rightarrow> fault + (byte list list \<times> bool)" where
  "ret_check T script pubs ctx =
     (case Next T ctx of
        (None, _) \<Rightarrow> Inr ([], False)
      | (Some (instr, _), ctx) \<Rightarrow>
     if instr \<noteq> RET T \<or> ip ctx \<noteq> length script then Inr ([], False)
     else Inr (pubs, True))"

definition syscall_check :: "vmconsts \<Rightarrow> byte list \<Rightarrow> byte list list \<Rightarrow> Context \<Rightarrow> fault + (byte list list \<times> bool)" where
  "syscall_check T script pubs ctx =
     (case Next T ctx of
        (None, _) \<Rightarrow> Inr ([], False)
      | (Some (instr, param), ctx) \<Rightarrow>
     if instr \<noteq> SYSCALL T then Inr ([], False) else
     (case LittleEndian_Uint32 param of
        Inl f \<Rightarrow> Inl f
      | Inr v \<Rightarrow>
     if v \<noteq> multisigInteropID T then Inr ([], False) else ret_check T script pubs ctx))"

definition pushnull_check :: "vmconsts \<Rightarrow> byte list \<Rightarrow> byte list list \<Rightarrow> Context \<Rightarrow> fault + (byte list list \<times> bool)" where
  "pushnull_check T script pubs ctx =
     (case Next T ctx of
        (None, _) \<Rightarrow> Inr ([], False)
      | (Some (instr, _), ctx) \<Rightarrow>
     if instr \<noteq> PUSHNULL T then Inr ([], False) else syscall_check T script pubs ctx)"

definition count_checks ::
  "vmconsts \<Rightarrow> byte list \<Rightarrow> int \<Rightarrow> (opcode \<times> byte list \<times> Context \<times> byte list list \<times> int) option \<Rightarrow>
     fault + (byte list list \<times> bool)" where
  "count_checks T script nsigs r =
     (case r of
        None \<Rightarrow> Inr ([], False)
      | Some (instr, param, ctx, pubs, nkeys) \<Rightarrow>
     if nkeys < nsigs then Inr ([], False) else
     (case getNumOfThingsFromInstr T instr param of
        Inl f \<Rightarrow> Inl f
      | Inr (nkeys2, ok) \<Rightarrow>
     if \<not> ok then Inr ([], False) else
     if nkeys2 \<noteq> nkeys then Inr ([], False) else pushnull_check T script pubs ctx))"

text \<open>The signature template position by position.\<close>

definition signature_layout :: "vmconsts \<Rightarrow> byte list \<Rightarrow> bool" where
  "signature_layout T s \<longleftrightarrow>
     length s = 41 \<and> s ! 0 = PUSHDATA1 T \<and> s ! 1 = 33 \<and> s ! 35 = PUSHNULL T \<and>
     s ! 36 = SYSCALL T \<and> drop 37 s = PutUint32 (verifyInteropID T)"

text \<open>
  A verification primitive to run the manifest model on concrete groups: the signature
  of an identity under a key is the pair of the two, so it verifies for that key and
  that identity only.
\<close>

definition sample_verify :: "PublicKey \<Rightarrow> Uint160 \<Rightarrow> PublicKey \<times> Uint160 \<Rightarrow> bool" where
  "sample_verify k h s \<longleftrightarrow> s = (k, h)"

definition sample_group :: "PublicKey \<Rightarrow> Uint160 \<Rightarrow> (PublicKey \<times> Uint160) Group" where
  "sample_group k h = \<lparr>PublicKey = k, Signature = (k, h)\<rparr>"

section \<open>Properties of the script classifier\<close>

subsection \<open>Opcodes, byte order and lists\<close>

lemma unat_PUSH_diff:
  assumes "1 \<le> k" "k \<le> 16"
  shows "unat (PUSH T k - PUSH1 T) = k - 1"
proof -
  have "PUSH T k - PUSH1 T = of_nat (k - 1)" unfolding PUSH_def by (simp only: add_diff_cancel_left')
  moreover have "unat (of_nat (k - 1) :: byte) = (k - 1) mod 2 ^ LENGTH(8)" by (rule unat_of_nat)
  ultimately show ?thesis using assms by simp
qed

lemma PUSH_unat: "PUSH T (Suc (unat (op - PUSH1 T))) = op"
  unfolding PUSH_def by simp

lemma PUSHn_iff: "op \<in> set (PUSHn T) \<longleftrightarrow> unat (op - PUSH1 T) < 16"
proof
  assume "op \<in> set (PUSHn T)"
  then obtain k where k: "1 \<le> k" "k \<le> 16" "op = PUSH T k"
    by (auto simp: PUSHn_def)
  then show "unat (op - PUSH1 T) < 16" using unat_PUSH_diff[of k T] by simp
next
  assume a: "unat (op - PUSH1 T) < 16"
  have "PUSH T (Suc (unat (op - PUSH1 T))) \<in> PUSH T ` {1..<17}"
    by (rule imageI) (use a in simp)
  then show "op \<in> set (PUSHn T)" by (simp add: PUSHn_def PUSH_unat)
qed

lemma PUSH_in_PUSHn: "1 \<le> k \<Longrightarrow> k \<le> 16 \<Longrightarrow> PUSH T k \<in> set (PUSHn T)"
  by (simp add: PUSHn_def)

lemma Uint32_Put: "LittleEndian_Uint32 (PutUint32 v) = Inr v"
  unfolding LittleEndian_Uint32_def PutUint32_def
  apply simp
  apply (rule bit_word_eqI)
  apply (auto simp: bit_simps not_less)
  subgoal for n
    by (cases "n < 24") auto
  done

lemma list4: "length b = 4 \<Longrightarrow> b = [b ! 0, b ! 1, b ! 2, b ! 3]"
  by (cases b; simp; cases "tl b"; simp; cases "tl (tl b)"; simp; cases "tl (tl (tl b))"; simp)

lemma Uint32_inj:
  assumes "length b = 4" "LittleEndian_Uint32 b = Inr v"
  shows "b = PutUint32 v"
proof -
  obtain b0 b1 b2 b3 where b: "b = [b0, b1, b2, b3]"
    using list4[OF assms(1)] by blast
  have v: "v = ucast b0 OR push_bit 8 (ucast b1) OR push_bit 16 (ucast b2) OR push_bit 24 (ucast b3)"
    using assms(2) unfolding LittleEndian_Uint32_def b by simp
  have "ucast v = b0" unfolding v
    by (rule bit_word_eqI) (auto simp: bit_simps dest: bit_imp_le_length)
  moreover have "ucast (drop_bit 8 v) = b1" unfolding v
    by (rule bit_word_eqI) (auto simp: bit_simps dest: bit_imp_le_length)
  moreover have "ucast (drop_bit 16 v) = b2" unfolding v
    by (rule bit_word_eqI) (auto simp: bit_simps dest: bit_imp_le_length)
  moreover have "ucast (drop_bit 24 v) = b3" unfolding v
    by (rule bit_word_eqI) (auto simp: bit_simps dest: bit_imp_le_length)
  ultimately show ?thesis by (simp add: b PutUint32_def)
qed

lemma drop_eq_ConsD: "drop i p = x # r \<Longrightarrow> i < length p \<and> p ! i = x \<and> drop (Suc i) p = r"
proof -
  assume a: "drop i p = x # r"
  then have l: "i < length p" by (metis drop_all list.distinct(1) not_less)
  from Cons_nth_drop_Suc[OF l] a show ?thesis using l by simp
qed

lemma drop_eq_appendD:
  "drop i p = xs @ r \<Longrightarrow> i \<le> length p \<Longrightarrow> i + length xs \<le> length p \<and> take (length xs) (drop i p) = xs \<and> drop (i + length xs) p = r"
proof -
  assume a: "drop i p = xs @ r" and i: "i \<le> length p"
  have "length (drop i p) = length xs + length r" by (simp add: a)
  with i have l: "i + length xs \<le> length p" by simp
  have "drop (length xs) (drop i p) = r" by (simp add: a)
  then have "drop (i + length xs) p = r" by (simp add: add.commute)
  with l a show ?thesis by simp
qed

lemma Next_enc:
  assumes d: "drop (ip c) (prog c) = enc T op param @ rest"
    and v: "valid_instr T op param"
  shows "Next T c = (Some (op, param), c\<lparr>ip := ip c + length (enc T op param)\<rparr>)"
proof (cases "op = PUSHDATA1 T")
  case True
  from d True have d1: "drop (ip c) (prog c) = op # of_nat (length param) # (param @ rest)"
    by (simp add: enc_def)
  from drop_eq_ConsD[OF d1] have i: "ip c < length (prog c)" "prog c ! ip c = op"
    and d2: "drop (Suc (ip c)) (prog c) = of_nat (length param) # (param @ rest)" by auto
  from drop_eq_ConsD[OF d2] have i1: "Suc (ip c) < length (prog c)"
    "prog c ! Suc (ip c) = of_nat (length param)"
    and d3: "drop (Suc (Suc (ip c))) (prog c) = param @ rest" by auto
  from v True have "length param < 256" by (simp add: valid_instr_def)
  then have n: "unat (of_nat (length param) :: byte) = length param"
    by (simp add: unat_of_nat)
  from drop_eq_appendD[OF d3] i1 have l: "Suc (Suc (ip c)) + length param \<le> length (prog c)"
    and t: "take (length param) (drop (Suc (Suc (ip c))) (prog c)) = param" by auto
  show ?thesis
    using True i i1 n l t by (simp add: Next_def Let_def enc_def)
next
  case False
  from d False have d1: "drop (ip c) (prog c) = op # (param @ rest)"
    by (simp add: enc_def)
  from drop_eq_ConsD[OF d1] have i: "ip c < length (prog c)" "prog c ! ip c = op"
    and d2: "drop (Suc (ip c)) (prog c) = param @ rest" by auto
  from v False have k: "operand_size T op = Some (length param)" by (simp add: valid_instr_def)
  from drop_eq_appendD[OF d2] i have l: "Suc (ip c) + length param \<le> length (prog c)"
    and t: "take (length param) (drop (Suc (ip c)) (prog c)) = param" by auto
  show ?thesis
    using False i k l t by (simp add: Next_def Let_def enc_def)
qed

lemma Next_SomeD:
  assumes n: "Next T c = (Some (op, param), c')"
  shows "c' = c\<lparr>ip := ip c + length (enc T op param)\<rparr>"
    and "drop (ip c) (prog c) = enc T op param @ drop (ip c + length (enc T op param)) (prog c)"
    and "valid_instr T op param"
    and "ip c + length (enc T op param) \<le> length (prog c)"
proof -
  from n have i: "ip c < length (prog c)"
    by (auto simp: Next_def Let_def split: if_splits)
  from n i have op: "op = prog c ! ip c"
    by (auto simp: Next_def Let_def split: if_splits option.splits)
  have "c' = c\<lparr>ip := ip c + length (enc T op param)\<rparr> \<and>
    drop (ip c) (prog c) = enc T op param @ drop (ip c + length (enc T op param)) (prog c) \<and>
    valid_instr T op param \<and> ip c + length (enc T op param) \<le> length (prog c)"
  proof (cases "op = PUSHDATA1 T")
    case True
    from n i op True have i1: "ip c + 1 < length (prog c)"
      and l: "ip c + 2 + unat (prog c ! (ip c + 1)) \<le> length (prog c)"
      and p: "param = take (unat (prog c ! (ip c + 1))) (drop (ip c + 2) (prog c))"
      and c': "c' = c\<lparr>ip := ip c + 2 + unat (prog c ! (ip c + 1))\<rparr>"
      by (auto simp: Next_def Let_def split: if_splits)
    from p l have lp: "length param = unat (prog c ! (ip c + 1))" by simp
    have lt: "length param < 256" unfolding lp using unsigned_less[of "prog c ! (ip c + 1)", where 'a = nat] by simp
    have b: "(of_nat (length param) :: byte) = prog c ! (ip c + 1)" by (simp add: lp)
    have "drop (ip c) (prog c) = prog c ! ip c # prog c ! (ip c + 1) # drop (ip c + 2) (prog c)"
      using i i1 by (simp add: Cons_nth_drop_Suc)
    also have "drop (ip c + 2) (prog c) = param @ drop (ip c + 2 + length param) (prog c)"
    proof -
      have "drop (ip c + 2) (prog c) =
        take (length param) (drop (ip c + 2) (prog c)) @ drop (length param) (drop (ip c + 2) (prog c))"
        by (simp only: append_take_drop_id)
      also have "take (length param) (drop (ip c + 2) (prog c)) = param" using p lp by simp
      finally show ?thesis by (simp add: add.commute)
    qed
    finally show ?thesis using True op c' lt b lp l
      by (simp add: enc_def valid_instr_def add.commute add.left_commute)
  next
    case False
    from n i op False obtain k where k: "operand_size T op = Some k"
      and l: "ip c + 1 + k \<le> length (prog c)"
      and p: "param = take k (drop (ip c + 1) (prog c))"
      and c': "c' = c\<lparr>ip := ip c + 1 + k\<rparr>"
      by (auto simp: Next_def Let_def split: if_splits option.splits)
    from p l have lp: "length param = k" by simp
    have "drop (ip c) (prog c) = prog c ! ip c # drop (ip c + 1) (prog c)"
      using i by (simp add: Cons_nth_drop_Suc)
    also have "drop (ip c + 1) (prog c) = param @ drop (ip c + 1 + length param) (prog c)"
    proof -
      have "drop (ip c + 1) (prog c) =
        take (length param) (drop (ip c + 1) (prog c)) @ drop (length param) (drop (ip c + 1) (prog c))"
        by (simp only: append_take_drop_id)
      also have "take (length param) (drop (ip c + 1) (prog c)) = param" using p lp by simp
      finally show ?thesis by (simp add: add.commute)
    qed
    finally show ?thesis using False op c' k lp l
      by (simp add: enc_def valid_instr_def add.commute add.left_commute)
  qed
  then show "c' = c\<lparr>ip := ip c + length (enc T op param)\<rparr>"
    and "drop (ip c) (prog c) = enc T op param @ drop (ip c + length (enc T op param)) (prog c)"
    and "valid_instr T op param"
    and "ip c + length (enc T op param) \<le> length (prog c)" by auto
qed

lemma distinct_opcodesD:
  assumes "distinct_opcodes T"
  shows "PUSHBYTES1 T \<noteq> PUSHBYTES2 T" "PUSHBYTES1 T \<noteq> PUSHDATA1 T" "PUSHBYTES1 T \<noteq> PUSHNULL T"
    "PUSHBYTES1 T \<noteq> RET T" "PUSHBYTES1 T \<noteq> SYSCALL T" "PUSHBYTES1 T \<notin> set (PUSHn T)"
    "PUSHBYTES2 T \<noteq> PUSHDATA1 T" "PUSHBYTES2 T \<noteq> PUSHNULL T" "PUSHBYTES2 T \<noteq> RET T"
    "PUSHBYTES2 T \<noteq> SYSCALL T" "PUSHBYTES2 T \<notin> set (PUSHn T)"
    "PUSHDATA1 T \<noteq> PUSHNULL T" "PUSHDATA1 T \<noteq> RET T" "PUSHDATA1 T \<noteq> SYSCALL T"
    "PUSHDATA1 T \<notin> set (PUSHn T)"
    "PUSHNULL T \<noteq> RET T" "PUSHNULL T \<noteq> SYSCALL T" "PUSHNULL T \<notin> set (PUSHn T)"
    "RET T \<noteq> SYSCALL T" "RET T \<notin> set (PUSHn T)" "SYSCALL T \<notin> set (PUSHn T)"
  using assms unfolding distinct_opcodes_def by auto

lemma PUSH_neq:
  assumes "distinct_opcodes T" "1 \<le> k" "k \<le> 16"
  shows "PUSH T k \<noteq> PUSHBYTES1 T" "PUSH T k \<noteq> PUSHBYTES2 T" "PUSH T k \<noteq> PUSHDATA1 T"
    "PUSH T k \<noteq> PUSHNULL T" "PUSH T k \<noteq> RET T" "PUSH T k \<noteq> SYSCALL T"
  using distinct_opcodesD[OF assms(1)] PUSH_in_PUSHn[OF assms(2,3), of T] by metis+

lemma valid_instr_push:
  "distinct_opcodes T \<Longrightarrow> numpush_ok e \<Longrightarrow> valid_instr T (push_opcode T e) (push_operand e)"
  using distinct_opcodesD[of T]
  by (cases e) (auto simp: valid_instr_def operand_size_def PUSH_in_PUSHn PUSH_neq)

lemma push_opcode_not_PUSHDATA1:
  "distinct_opcodes T \<Longrightarrow> numpush_ok e \<Longrightarrow> push_opcode T e \<noteq> PUSHDATA1 T"
  using distinct_opcodesD[of T]
  by (cases e) (auto simp: PUSH_neq)

lemma enc_push:
  "distinct_opcodes T \<Longrightarrow> numpush_ok e \<Longrightarrow> enc T (push_opcode T e) (push_operand e) = push_bytes T e"
  by (simp add: enc_def push_bytes_def push_opcode_not_PUSHDATA1)

lemma getNum_push:
  assumes "distinct_opcodes T" "numpush_ok e"
  shows "getNumOfThingsFromInstr T (push_opcode T e) (push_operand e) =
    Inr (if 1 \<le> numval e \<and> numval e \<le> MaxArraySize T then (numval e, True) else (0, False))"
proof (cases e)
  case (SmallInt k)
  with assms(2) have k: "1 \<le> k" "k \<le> 16" by auto
  show ?thesis using k PUSH_in_PUSHn[OF k, of T] unat_PUSH_diff[OF k, of T]
    by (simp add: SmallInt getNumOfThingsFromInstr_def)
next
  case (Imm1 b)
  show ?thesis using distinct_opcodesD[OF assms(1)]
    by (simp add: Imm1 getNumOfThingsFromInstr_def)
next
  case (Imm2 lo hi)
  show ?thesis using distinct_opcodesD[OF assms(1)]
    by (simp add: Imm2 getNumOfThingsFromInstr_def LittleEndian_Uint16_def)
qed

lemma getNum_no_fault:
  assumes "distinct_opcodes T" "valid_instr T instr param"
  shows "\<exists>r. getNumOfThingsFromInstr T instr param = Inr r"
  using assms distinct_opcodesD[OF assms(1)]
  by (auto simp: getNumOfThingsFromInstr_def valid_instr_def operand_size_def
      LittleEndian_Uint16_def Let_def split: if_splits)

lemma getNum_acceptD:
  assumes d: "distinct_opcodes T" and v: "valid_instr T instr param"
    and g: "getNumOfThingsFromInstr T instr param = Inr (n, True)"
  shows "\<exists>e. numpush_ok e \<and> push_opcode T e = instr \<and> push_operand e = param \<and>
    numval e = n \<and> 1 \<le> n \<and> n \<le> MaxArraySize T"
proof -
  note D = distinct_opcodesD[OF d]
  consider (small) "instr \<in> set (PUSHn T)"
    | (b1) "instr \<notin> set (PUSHn T)" "instr = PUSHBYTES1 T"
    | (b2) "instr \<notin> set (PUSHn T)" "instr \<noteq> PUSHBYTES1 T" "instr = PUSHBYTES2 T"
    using g by (auto simp: getNumOfThingsFromInstr_def Let_def split: if_splits)
  then show ?thesis
  proof cases
    case small
    define k where "k = unat (instr - PUSH1 T) + 1"
    from small have k16: "k \<le> 16" "1 \<le> k" by (auto simp: PUSHn_iff k_def)
    have op: "PUSH T k = instr" by (simp add: k_def PUSH_unat)
    from small D v have "param = []"
      by (auto simp: valid_instr_def operand_size_def split: if_splits)
    moreover from g small have "n = int k" "1 \<le> n" "n \<le> MaxArraySize T"
      by (auto simp: getNumOfThingsFromInstr_def Let_def k_def split: if_splits)
    ultimately show ?thesis using k16 op
      by (intro exI[of _ "SmallInt k"]) simp
  next
    case b1
    with D v have "length param = 1"
      by (auto simp: valid_instr_def operand_size_def split: if_splits)
    then obtain b where p: "param = [b]" by (cases param) auto
    from g b1 p have "n = int (unat b)" "1 \<le> n" "n \<le> MaxArraySize T"
      by (auto simp: getNumOfThingsFromInstr_def Let_def split: if_splits)
    then show ?thesis using b1 p by (intro exI[of _ "Imm1 b"]) simp
  next
    case b2
    with D v have "length param = 2"
      by (auto simp: valid_instr_def operand_size_def split: if_splits)
    then obtain lo hi where p: "param = [lo, hi]"
      by (cases param; simp) (metis length_0_conv length_Suc_conv)
    from g b2 p have "n = int (unat lo + 256 * unat hi)" "1 \<le> n" "n \<le> MaxArraySize T"
      by (auto simp: getNumOfThingsFromInstr_def Let_def LittleEndian_Uint16_def split: if_splits)
    then show ?thesis using b2 p by (intro exI[of _ "Imm2 lo hi"]) simp
  qed
qed

lemma Next_step:
  assumes d: "drop (ip c) (prog c) = enc T op param @ rest"
    and v: "valid_instr T op param" and i: "ip c \<le> length (prog c)"
  obtains c' where "Next T c = (Some (op, param), c')" "prog c' = prog c"
    "drop (ip c') (prog c') = rest" "ip c' \<le> length (prog c')"
proof -
  let ?c' = "c\<lparr>ip := ip c + length (enc T op param)\<rparr>"
  have "Next T c = (Some (op, param), ?c')" by (rule Next_enc[OF d v])
  moreover from drop_eq_appendD[OF d i]
  have "drop (ip ?c') (prog ?c') = rest" "ip ?c' \<le> length (prog ?c')" by simp_all
  ultimately show ?thesis using that[of ?c'] by simp
qed

lemma enc_pushdata1: "enc T (PUSHDATA1 T) key = pushdata1 T key"
  by (simp add: enc_def pushdata1_def)

lemma valid_instr_pushdata1: "valid_instr T (PUSHDATA1 T) key \<longleftrightarrow> length key < 256"
  by (simp add: valid_instr_def)

lemma keys_loop_stop:
  "Next T c = (Some (instr, param), c') \<Longrightarrow> instr \<noteq> PUSHDATA1 T \<Longrightarrow>
   keys_loop T c pubs nkeys = Some (instr, param, c', pubs, nkeys)"
  by (subst keys_loop.simps) simp

lemma keys_loop_keys:
  assumes "drop (ip c) (prog c) = concat (map (pushdata1 T) ks) @ rest"
    and "ip c \<le> length (prog c)" and "\<forall>k\<in>set ks. length k < 256"
    and "nkeys \<le> MaxArraySize T"
  shows "keys_loop T c pubs nkeys =
      (if (\<forall>k\<in>set ks. 33 \<le> length k) \<and> nkeys + int (length ks) \<le> MaxArraySize T
       then keys_loop T (c\<lparr>ip := ip c + length (concat (map (pushdata1 T) ks))\<rparr>)
              (pubs @ ks) (nkeys + int (length ks))
       else None)"
  using assms
proof (induction ks arbitrary: c pubs nkeys)
  case Nil
  then show ?case by simp
next
  case (Cons k ks)
  let ?c1 = "c\<lparr>ip := ip c + length (enc T (PUSHDATA1 T) k)\<rparr>"
  from Cons.prems(1) have d: "drop (ip c) (prog c) =
    enc T (PUSHDATA1 T) k @ (concat (map (pushdata1 T) ks) @ rest)"
    by (simp add: enc_pushdata1)
  from Cons.prems(3) have v: "valid_instr T (PUSHDATA1 T) k" by (simp add: valid_instr_pushdata1)
  have n: "Next T c = (Some (PUSHDATA1 T, k), ?c1)" by (rule Next_enc[OF d v])
  from drop_eq_appendD[OF d Cons.prems(2)]
  have d1: "drop (ip ?c1) (prog ?c1) = concat (map (pushdata1 T) ks) @ rest"
    and i1: "ip ?c1 \<le> length (prog ?c1)" by simp_all
  show ?case
  proof (cases "33 \<le> length k \<and> nkeys + 1 \<le> MaxArraySize T")
    case True
    from Cons.prems(3) have ks: "\<forall>k\<in>set ks. length k < 256" by simp
    from True have m: "nkeys + 1 \<le> MaxArraySize T" by simp
    note l = Cons.IH[OF d1 i1 ks m, of "pubs @ [k]"]
    have "keys_loop T c pubs nkeys = keys_loop T ?c1 (pubs @ [k]) (nkeys + 1)"
      using n True by (subst keys_loop.simps) simp
    with l True show ?thesis
      by (simp add: algebra_simps enc_pushdata1)
  next
    case False
    have "keys_loop T c pubs nkeys = None"
      using n False by (subst keys_loop.simps) auto
    moreover from False have "\<not> ((\<forall>k\<in>set (k # ks). 33 \<le> length k) \<and>
      nkeys + int (length (k # ks)) \<le> MaxArraySize T)" by auto
    ultimately show ?thesis by (simp only: if_False)
  qed
qed

lemma keys_loop_SomeD:
  assumes "keys_loop T c pubs nkeys = Some (instr, param, c', pubs', nkeys')"
  shows "\<exists>ks. pubs' = pubs @ ks \<and> nkeys' = nkeys + int (length ks) \<and>
    (\<forall>k\<in>set ks. 33 \<le> length k \<and> length k < 256) \<and>
    instr \<noteq> PUSHDATA1 T \<and> valid_instr T instr param \<and> prog c' = prog c \<and>
    drop (ip c) (prog c) =
      concat (map (pushdata1 T) ks) @ enc T instr param @ drop (ip c') (prog c) \<and>
    ip c' \<le> length (prog c) \<and> (ks \<noteq> [] \<longrightarrow> nkeys' \<le> MaxArraySize T)"
  using assms
proof (induction T c pubs nkeys rule: keys_loop.induct)
  case (1 T ctx pubs nkeys)
  from "1.prems" obtain op p c1 where n: "Next T ctx = (Some (op, p), c1)"
    by (subst (asm) keys_loop.simps) (auto split: prod.splits option.splits)
  note N = Next_SomeD[OF n]
  show ?case
  proof (cases "op = PUSHDATA1 T")
    case False
    with "1.prems" n have e: "instr = op" "param = p" "c' = c1" "pubs' = pubs" "nkeys' = nkeys"
      by (subst (asm) keys_loop.simps; simp)+
    show ?thesis using N False unfolding e
      by (intro exI[of _ "[]"]) simp
  next
    case True
    with "1.prems" n have l: "\<not> length p < 33" "\<not> nkeys + 1 > MaxArraySize T"
      and r: "keys_loop T c1 (pubs @ [p]) (nkeys + 1) = Some (instr, param, c', pubs', nkeys')"
      by (subst (asm) keys_loop.simps; simp split: if_splits)+
    from "1.IH"[OF n[symmetric] refl refl _ l r] True
    obtain ks where ks: "pubs' = (pubs @ [p]) @ ks" "nkeys' = nkeys + 1 + int (length ks)"
      "\<forall>k\<in>set ks. 33 \<le> length k \<and> length k < 256"
      "instr \<noteq> PUSHDATA1 T" "valid_instr T instr param" "prog c' = prog c1"
      "drop (ip c1) (prog c1) =
        concat (map (pushdata1 T) ks) @ enc T instr param @ drop (ip c') (prog c1)"
      "ip c' \<le> length (prog c1)" "ks \<noteq> [] \<longrightarrow> nkeys' \<le> MaxArraySize T"
      by auto
    from N(3) True have lp: "length p < 256" by (simp add: valid_instr_pushdata1)
    have pc: "prog c1 = prog ctx" "ip c1 = ip ctx + length (enc T op p)" using N(1) by simp_all
    have "drop (ip ctx) (prog ctx) = concat (map (pushdata1 T) (p # ks)) @
      enc T instr param @ drop (ip c') (prog ctx)"
      using N(2) ks(7) True unfolding pc by (simp add: enc_pushdata1)
    moreover have "nkeys' \<le> MaxArraySize T"
    proof (cases "ks = []")
      case True then show ?thesis using ks(2) l by simp
    next
      case False then show ?thesis using ks(9) by simp
    qed
    ultimately show ?thesis using ks l lp pc
      by (intro exI[of _ "p # ks"]) simp
  qed
qed

lemma valid_instr_simple:
  assumes "distinct_opcodes T"
  shows "valid_instr T (PUSHNULL T) []" "valid_instr T (RET T) []"
    "valid_instr T (SYSCALL T) (PutUint32 v)"
  using distinct_opcodesD[OF assms]
  by (simp_all add: valid_instr_def operand_size_def PutUint32_def)

lemma enc_simple:
  assumes "distinct_opcodes T"
  shows "enc T (PUSHNULL T) [] = [PUSHNULL T]" "enc T (RET T) [] = [RET T]"
    "enc T (SYSCALL T) p = SYSCALL T # p"
  using distinct_opcodesD[OF assms] by (simp_all add: enc_def)

lemma Parse_script:
  assumes D: "distinct_opcodes T" and m: "numpush_ok m" and n: "numpush_ok n"
    and ks: "\<forall>k\<in>set keys. length k < 256"
  shows "ParseMultiSigContract T (multisig_script T m keys n @ trailer) =
    Inr (if multisig_accepts T m keys n \<and> trailer = [] then (keys, True) else ([], False))"
proof -
  let ?s = "multisig_script T m keys n @ trailer"
  let ?c0 = "NewContext ?s"
  let ?r4 = "enc T (RET T) [] @ trailer"
  let ?r3 = "enc T (SYSCALL T) (PutUint32 (multisigInteropID T)) @ ?r4"
  let ?r2 = "enc T (PUSHNULL T) [] @ ?r3"
  let ?r1 = "enc T (push_opcode T n) (push_operand n) @ ?r2"
  let ?r0 = "concat (map (pushdata1 T) keys) @ ?r1"
  have d0: "drop (ip ?c0) (prog ?c0) = enc T (push_opcode T m) (push_operand m) @ ?r0"
    by (simp add: NewContext_def multisig_script_def enc_push[OF D] m n enc_simple[OF D])
  have i0: "ip ?c0 \<le> length (prog ?c0)" by (simp add: NewContext_def)
  from Next_step[OF d0 valid_instr_push[OF D m] i0] obtain c1 where
    n1: "Next T ?c0 = (Some (push_opcode T m, push_operand m), c1)" and p1: "prog c1 = ?s"
    and d1: "drop (ip c1) (prog c1) = ?r0" and i1: "ip c1 \<le> length (prog c1)"
    by (auto simp: NewContext_def)
  note g1 = getNum_push[OF D m]
  show ?thesis
  proof (cases "1 \<le> numval m \<and> numval m \<le> MaxArraySize T")
    case False
    then have "\<not> multisig_accepts T m keys n" by (auto simp: multisig_accepts_def list_all_iff)
    moreover from False g1
    have "getNumOfThingsFromInstr T (push_opcode T m) (push_operand m) = Inr (0, False)"
      by auto
    ultimately show ?thesis using n1 by (simp add: ParseMultiSigContract_def)
  next
    case range: True
    then have mx: "0 \<le> MaxArraySize T" by simp
    from range g1
    have g1': "getNumOfThingsFromInstr T (push_opcode T m) (push_operand m) = Inr (numval m, True)"
      by auto
    note kl = keys_loop_keys[OF d1 i1 ks mx, of "[]"]
    show ?thesis
    proof (cases "(\<forall>k\<in>set keys. 33 \<le> length k) \<and> int (length keys) \<le> MaxArraySize T")
      case False
      then have "\<not> multisig_accepts T m keys n" by (auto simp: multisig_accepts_def list_all_iff)
      moreover from kl False have "keys_loop T c1 [] 0 = None" by auto
      ultimately show ?thesis using n1 g1' by (simp add: ParseMultiSigContract_def)
    next
      case keys: True
      let ?c2 = "c1\<lparr>ip := ip c1 + length (concat (map (pushdata1 T) keys))\<rparr>"
      from drop_eq_appendD[OF d1 i1]
      have d2: "drop (ip ?c2) (prog ?c2) = ?r1" and i2: "ip ?c2 \<le> length (prog ?c2)"
        by simp_all
      from Next_step[OF d2 valid_instr_push[OF D n] i2] obtain c3 where
        n3: "Next T ?c2 = (Some (push_opcode T n, push_operand n), c3)" and p3: "prog c3 = prog c1"
        and d3: "drop (ip c3) (prog c3) = ?r2" and i3: "ip c3 \<le> length (prog c3)"
        by auto
      from kl keys keys_loop_stop[OF n3 push_opcode_not_PUSHDATA1[OF D n]]
      have k: "keys_loop T c1 [] 0 =
        Some (push_opcode T n, push_operand n, c3, keys, int (length keys))" by simp
      note g2 = getNum_push[OF D n]
      from Next_step[OF d3 valid_instr_simple(1)[OF D] i3] obtain c4 where
        n4: "Next T c3 = (Some (PUSHNULL T, []), c4)" and p4: "prog c4 = prog c3"
        and d4: "drop (ip c4) (prog c4) = ?r3" and i4: "ip c4 \<le> length (prog c4)"
        by auto
      from Next_step[OF d4 valid_instr_simple(3)[OF D] i4] obtain c5 where
        n5: "Next T c4 = (Some (SYSCALL T, PutUint32 (multisigInteropID T)), c5)"
        and p5: "prog c5 = prog c4"
        and d5: "drop (ip c5) (prog c5) = ?r4" and i5: "ip c5 \<le> length (prog c5)"
        by auto
      from Next_step[OF d5 valid_instr_simple(2)[OF D] i5] obtain c6 where
        n6: "Next T c5 = (Some (RET T, []), c6)" and p6: "prog c6 = prog c5"
        and d6: "drop (ip c6) (prog c6) = trailer" and i6: "ip c6 \<le> length (prog c6)"
        by auto
      have pc: "prog c6 = ?s" using p6 p5 p4 p3 p1 by simp
      have e: "ip c6 = length ?s \<longleftrightarrow> trailer = []"
        using d6 i6 unfolding pc by (metis drop_all drop_eq_Nil order_antisym)
      have a: "multisig_accepts T m keys n \<longleftrightarrow>
        numval m \<le> int (length keys) \<and> numval n = int (length keys)"
        using range keys by (auto simp: multisig_accepts_def list_all_iff)
      show ?thesis
      proof (cases "numval m \<le> int (length keys) \<and> numval n = int (length keys)")
        case True
        with range g2 keys
        have "getNumOfThingsFromInstr T (push_opcode T n) (push_operand n) = Inr (numval n, True)"
          by auto
        then show ?thesis using True n1 g1' k n4 n5 n6 e a
          by (simp add: ParseMultiSigContract_def Uint32_Put)
      next
        case False
        have "getNumOfThingsFromInstr T (push_opcode T n) (push_operand n) = Inr (0, False) \<or>
          getNumOfThingsFromInstr T (push_opcode T n) (push_operand n) = Inr (numval n, True)"
          using g2 by auto
        then show ?thesis using False n1 g1' k a
          by (auto simp: ParseMultiSigContract_def)
      qed
    qed
  qed
qed

lemma fault_eq: "(f :: fault) = IndexOutOfRange"
  by (cases f)

lemma Parse_unfold:
  "ParseMultiSigContract T script =
     (case Next T (NewContext script) of
        (None, _) \<Rightarrow> Inr ([], False)
      | (Some (instr, param), ctx) \<Rightarrow>
     (case getNumOfThingsFromInstr T instr param of
        Inl f \<Rightarrow> Inl f
      | Inr (nsigs, ok) \<Rightarrow>
     if \<not> ok then Inr ([], False) else count_checks T script nsigs (keys_loop T ctx [] 0)))"
  unfolding ParseMultiSigContract_def count_checks_def pushnull_check_def syscall_check_def
    ret_check_def by (rule refl)

lemma ret_check_D:
  assumes "ret_check T s pubs c \<noteq> Inr ([], False)"
  shows "\<exists>p c'. Next T c = (Some (RET T, p), c') \<and> ip c' = length s \<and>
    ret_check T s pubs c = Inr (pubs, True)"
  using assms unfolding ret_check_def
  by (auto split: prod.splits option.splits if_splits)

lemma syscall_check_D:
  assumes "syscall_check T s pubs c \<noteq> Inr ([], False)"
  shows "\<exists>p c'. Next T c = (Some (SYSCALL T, p), c') \<and>
    (LittleEndian_Uint32 p = Inl IndexOutOfRange \<and> syscall_check T s pubs c = Inl IndexOutOfRange \<or>
     LittleEndian_Uint32 p = Inr (multisigInteropID T) \<and>
       syscall_check T s pubs c = ret_check T s pubs c')"
  using assms unfolding syscall_check_def
  by (auto split: prod.splits option.splits if_splits sum.splits intro: fault_eq)

lemma pushnull_check_D:
  assumes "pushnull_check T s pubs c \<noteq> Inr ([], False)"
  shows "\<exists>p c'. Next T c = (Some (PUSHNULL T, p), c') \<and>
    pushnull_check T s pubs c = syscall_check T s pubs c'"
  using assms unfolding pushnull_check_def
  by (auto split: prod.splits option.splits if_splits)

lemma count_checks_D:
  assumes "count_checks T s nsigs r \<noteq> Inr ([], False)"
  shows "\<exists>i p c pubs nkeys. r = Some (i, p, c, pubs, nkeys) \<and> nsigs \<le> nkeys \<and>
    (getNumOfThingsFromInstr T i p = Inl IndexOutOfRange \<and>
       count_checks T s nsigs r = Inl IndexOutOfRange \<or>
     getNumOfThingsFromInstr T i p = Inr (nkeys, True) \<and>
       count_checks T s nsigs r = pushnull_check T s pubs c)"
  using assms unfolding count_checks_def
  by (auto split: prod.splits option.splits if_splits sum.splits intro: fault_eq)

lemma Parse_D:
  assumes "ParseMultiSigContract T s \<noteq> Inr ([], False)"
  shows "\<exists>i p c. Next T (NewContext s) = (Some (i, p), c) \<and>
    (getNumOfThingsFromInstr T i p = Inl IndexOutOfRange \<and>
       ParseMultiSigContract T s = Inl IndexOutOfRange \<or>
     (\<exists>nsigs. getNumOfThingsFromInstr T i p = Inr (nsigs, True) \<and>
       ParseMultiSigContract T s = count_checks T s nsigs (keys_loop T c [] 0)))"
  using assms unfolding Parse_unfold
  by (auto split: prod.splits option.splits if_splits sum.splits intro: fault_eq)

lemma Next_SomeD':
  assumes "Next T c = (Some (op, param), c')"
  shows "prog c' = prog c"
    and "drop (ip c) (prog c) = enc T op param @ drop (ip c') (prog c)"
    and "valid_instr T op param" and "ip c' \<le> length (prog c)"
  using Next_SomeD[OF assms] by simp_all

lemma valid_instr_lengths:
  assumes "distinct_opcodes T"
  shows "valid_instr T (PUSHNULL T) p \<Longrightarrow> p = []" "valid_instr T (RET T) p \<Longrightarrow> p = []"
    "valid_instr T (SYSCALL T) p \<Longrightarrow> length p = 4"
  using distinct_opcodesD[OF assms]
  by (auto simp: valid_instr_def operand_size_def split: if_splits)

lemma Uint32_no_fault: "length p = 4 \<Longrightarrow> LittleEndian_Uint32 p \<noteq> Inl f"
  by (simp add: LittleEndian_Uint32_def)

lemma Parse_cases:
  assumes D: "distinct_opcodes T"
  shows "ParseMultiSigContract T s = Inr ([], False) \<or>
    (\<exists>m n ks. numpush_ok m \<and> numpush_ok n \<and> (\<forall>k\<in>set ks. length k < 256) \<and>
       s = multisig_script T m ks n \<and> multisig_accepts T m ks n \<and>
       ParseMultiSigContract T s = Inr (ks, True))"
proof (cases "ParseMultiSigContract T s = Inr ([], False)")
  case True
  then show ?thesis by simp
next
  case False
  from Parse_D[OF False] obtain i1 p1 c1 where n1: "Next T (NewContext s) = (Some (i1, p1), c1)"
    and g1: "getNumOfThingsFromInstr T i1 p1 = Inl IndexOutOfRange \<or>
      (\<exists>nsigs. getNumOfThingsFromInstr T i1 p1 = Inr (nsigs, True) \<and>
        ParseMultiSigContract T s = count_checks T s nsigs (keys_loop T c1 [] 0))"
    by blast
  note N1 = Next_SomeD'[OF n1]
  from getNum_no_fault[OF D N1(3)] g1 obtain nsigs where
    g1': "getNumOfThingsFromInstr T i1 p1 = Inr (nsigs, True)"
    and s1: "ParseMultiSigContract T s = count_checks T s nsigs (keys_loop T c1 [] 0)"
    by auto
  from False s1 have "count_checks T s nsigs (keys_loop T c1 [] 0) \<noteq> Inr ([], False)" by simp
  from count_checks_D[OF this] obtain i2 p2 c2 pubs nkeys where
    k: "keys_loop T c1 [] 0 = Some (i2, p2, c2, pubs, nkeys)" and le: "nsigs \<le> nkeys"
    and g2: "getNumOfThingsFromInstr T i2 p2 = Inl IndexOutOfRange \<or>
      getNumOfThingsFromInstr T i2 p2 = Inr (nkeys, True) \<and>
      count_checks T s nsigs (keys_loop T c1 [] 0) = pushnull_check T s pubs c2"
    by blast
  from keys_loop_SomeD[OF k] have nk: "nkeys = int (length pubs)"
    and kv: "\<forall>k\<in>set pubs. 33 \<le> length k \<and> length k < 256"
    and v2: "valid_instr T i2 p2" and pc2: "prog c2 = prog c1"
    and d2: "drop (ip c1) (prog c1) =
      concat (map (pushdata1 T) pubs) @ enc T i2 p2 @ drop (ip c2) (prog c1)"
    by auto
  from getNum_no_fault[OF D v2] g2 have
    g2': "getNumOfThingsFromInstr T i2 p2 = Inr (nkeys, True)"
    and s2: "count_checks T s nsigs (keys_loop T c1 [] 0) = pushnull_check T s pubs c2"
    by auto
  from False s1 s2 have "pushnull_check T s pubs c2 \<noteq> Inr ([], False)" by simp
  from pushnull_check_D[OF this] obtain p3 c3 where
    n3: "Next T c2 = (Some (PUSHNULL T, p3), c3)"
    and s3: "pushnull_check T s pubs c2 = syscall_check T s pubs c3" by blast
  note N3 = Next_SomeD'[OF n3]
  from False s1 s2 s3 have "syscall_check T s pubs c3 \<noteq> Inr ([], False)" by simp
  from syscall_check_D[OF this] obtain p4 c4 where
    n4: "Next T c3 = (Some (SYSCALL T, p4), c4)"
    and u: "LittleEndian_Uint32 p4 = Inl IndexOutOfRange \<and>
        syscall_check T s pubs c3 = Inl IndexOutOfRange \<or>
      LittleEndian_Uint32 p4 = Inr (multisigInteropID T) \<and>
        syscall_check T s pubs c3 = ret_check T s pubs c4" by blast
  note N4 = Next_SomeD'[OF n4]
  have l4: "length p4 = 4" by (rule valid_instr_lengths(3)[OF D N4(3)])
  from u Uint32_no_fault[OF l4] have u': "LittleEndian_Uint32 p4 = Inr (multisigInteropID T)"
    and s4: "syscall_check T s pubs c3 = ret_check T s pubs c4" by auto
  from False s1 s2 s3 s4 have "ret_check T s pubs c4 \<noteq> Inr ([], False)" by simp
  from ret_check_D[OF this] obtain p5 c5 where
    n5: "Next T c4 = (Some (RET T, p5), c5)" and e5: "ip c5 = length s"
    and s5: "ret_check T s pubs c4 = Inr (pubs, True)" by blast
  note N5 = Next_SomeD'[OF n5]
  have res: "ParseMultiSigContract T s = Inr (pubs, True)" using s1 s2 s3 s4 s5 by simp
  from getNum_acceptD[OF D N1(3) g1'] obtain m where m: "numpush_ok m"
    "push_opcode T m = i1" "push_operand m = p1" "numval m = nsigs" "1 \<le> nsigs"
    by blast
  from getNum_acceptD[OF D v2 g2'] obtain n where n: "numpush_ok n"
    "push_opcode T n = i2" "push_operand n = p2" "numval n = nkeys" "nkeys \<le> MaxArraySize T"
    by blast
  have pr: "prog c1 = s" "prog c2 = s" "prog c3 = s" "prog c4 = s"
    using N1(1) pc2 N3(1) N4(1) by (simp_all add: NewContext_def)
  have "s = drop (ip (NewContext s)) (prog (NewContext s))" by (simp add: NewContext_def)
  also have "\<dots> = enc T i1 p1 @ drop (ip c1) s" using N1(2) by (simp add: NewContext_def)
  also have "drop (ip c1) s = concat (map (pushdata1 T) pubs) @ enc T i2 p2 @ drop (ip c2) s"
    using d2 pr by simp
  also have "drop (ip c2) s = enc T (PUSHNULL T) p3 @ drop (ip c3) s" using N3(2) pr by simp
  also have "drop (ip c3) s = enc T (SYSCALL T) p4 @ drop (ip c4) s" using N4(2) pr by simp
  also have "drop (ip c4) s = enc T (RET T) p5 @ drop (ip c5) s" using N5(2) pr by simp
  also have "drop (ip c5) s = []" using e5 by simp
  finally have "s = enc T i1 p1 @ concat (map (pushdata1 T) pubs) @ enc T i2 p2 @
    enc T (PUSHNULL T) p3 @ enc T (SYSCALL T) p4 @ enc T (RET T) p5 @ []" .
  moreover have "p3 = []" "p5 = []" "p4 = PutUint32 (multisigInteropID T)"
    using valid_instr_lengths(1)[OF D N3(3)] valid_instr_lengths(2)[OF D N5(3)]
      Uint32_inj[OF l4 u'] by simp_all
  moreover have "enc T i1 p1 = push_bytes T m" "enc T i2 p2 = push_bytes T n"
    using enc_push[OF D m(1)] enc_push[OF D n(1)] m n by simp_all
  ultimately have "s = multisig_script T m pubs n"
    by (simp add: multisig_script_def enc_simple[OF D])
  moreover have "multisig_accepts T m pubs n"
    using m n le nk kv by (auto simp: multisig_accepts_def list_all_iff)
  ultimately show ?thesis using m(1) n(1) kv res by blast
qed

lemma IsSig_D:
  assumes "IsSignatureContract T s \<noteq> Inr False"
  shows "\<exists>p1 c1 p2 c2 p3 c3. length s = 41 \<and>
    Next T (NewContext s) = (Some (PUSHDATA1 T, p1), c1) \<and> length p1 = 33 \<and>
    Next T c1 = (Some (PUSHNULL T, p2), c2) \<and> Next T c2 = (Some (SYSCALL T, p3), c3) \<and>
    (LittleEndian_Uint32 p3 = Inl IndexOutOfRange \<and> IsSignatureContract T s = Inl IndexOutOfRange \<or>
     LittleEndian_Uint32 p3 = Inr (verifyInteropID T) \<and> IsSignatureContract T s = Inr True)"
  using assms unfolding IsSignatureContract_def
  by (auto split: prod.splits option.splits if_splits sum.splits intro: fault_eq)

lemma length_signature_script: "length (signature_script T key) = length key + 8"
  by (simp add: signature_script_def pushdata1_def PutUint32_def)

lemma IsSig_script:
  assumes D: "distinct_opcodes T" and l: "length key = 33"
  shows "IsSignatureContract T (signature_script T key) = Inr True"
proof -
  let ?s = "signature_script T key"
  let ?c0 = "NewContext ?s"
  let ?r2 = "enc T (SYSCALL T) (PutUint32 (verifyInteropID T)) @ []"
  let ?r1 = "enc T (PUSHNULL T) [] @ ?r2"
  have d0: "drop (ip ?c0) (prog ?c0) = enc T (PUSHDATA1 T) key @ ?r1"
    by (simp add: NewContext_def signature_script_def enc_pushdata1 enc_simple[OF D])
  have i0: "ip ?c0 \<le> length (prog ?c0)" by (simp add: NewContext_def)
  from l have v: "valid_instr T (PUSHDATA1 T) key" by (simp add: valid_instr_pushdata1)
  from Next_step[OF d0 v i0] obtain c1 where
    n1: "Next T ?c0 = (Some (PUSHDATA1 T, key), c1)"
    and d1: "drop (ip c1) (prog c1) = ?r1" and i1: "ip c1 \<le> length (prog c1)"
    by blast
  from Next_step[OF d1 valid_instr_simple(1)[OF D] i1] obtain c2 where
    n2: "Next T c1 = (Some (PUSHNULL T, []), c2)"
    and d2: "drop (ip c2) (prog c2) = ?r2" and i2: "ip c2 \<le> length (prog c2)"
    by blast
  from Next_step[OF d2 valid_instr_simple(3)[OF D] i2] obtain c3 where
    n3: "Next T c2 = (Some (SYSCALL T, PutUint32 (verifyInteropID T)), c3)"
    by blast
  show ?thesis using n1 n2 n3 l
    by (simp add: IsSignatureContract_def length_signature_script Uint32_Put)
qed

lemma IsSig_cases:
  assumes D: "distinct_opcodes T"
  shows "IsSignatureContract T s = Inr False \<or>
    (\<exists>key. length key = 33 \<and> s = signature_script T key \<and> IsSignatureContract T s = Inr True)"
proof (cases "IsSignatureContract T s = Inr False")
  case True
  then show ?thesis by simp
next
  case False
  from IsSig_D[OF False] obtain p1 c1 p2 c2 p3 c3 where ls: "length s = 41"
    and n1: "Next T (NewContext s) = (Some (PUSHDATA1 T, p1), c1)" and l1: "length p1 = 33"
    and n2: "Next T c1 = (Some (PUSHNULL T, p2), c2)"
    and n3: "Next T c2 = (Some (SYSCALL T, p3), c3)"
    and u: "LittleEndian_Uint32 p3 = Inl IndexOutOfRange \<and>
        IsSignatureContract T s = Inl IndexOutOfRange \<or>
      LittleEndian_Uint32 p3 = Inr (verifyInteropID T) \<and> IsSignatureContract T s = Inr True"
    by blast
  note N1 = Next_SomeD'[OF n1] and N2 = Next_SomeD'[OF n2] and N3 = Next_SomeD'[OF n3]
  have l3: "length p3 = 4" by (rule valid_instr_lengths(3)[OF D N3(3)])
  from u Uint32_no_fault[OF l3] have u': "LittleEndian_Uint32 p3 = Inr (verifyInteropID T)"
    and res: "IsSignatureContract T s = Inr True" by auto
  have p2: "p2 = []" by (rule valid_instr_lengths(1)[OF D N2(3)])
  have p3: "p3 = PutUint32 (verifyInteropID T)" by (rule Uint32_inj[OF l3 u'])
  have pr: "prog c1 = s" "prog c2 = s" using N1(1) N2(1) by (simp_all add: NewContext_def)
  have "ip c3 = ip c2 + length (enc T (SYSCALL T) p3)" using Next_SomeD(1)[OF n3] by simp
  also have "ip c2 = ip c1 + length (enc T (PUSHNULL T) p2)" using Next_SomeD(1)[OF n2] by simp
  also have "ip c1 = length (enc T (PUSHDATA1 T) p1)"
    using Next_SomeD(1)[OF n1] by (simp add: NewContext_def)
  finally have "ip c3 = length s" using l1 l3 p2 ls by (simp add: enc_pushdata1 pushdata1_def enc_simple[OF D])
  then have z: "drop (ip c3) s = []" by simp
  have "s = drop (ip (NewContext s)) (prog (NewContext s))" by (simp add: NewContext_def)
  also have "\<dots> = enc T (PUSHDATA1 T) p1 @ drop (ip c1) s" using N1(2) by (simp add: NewContext_def)
  also have "drop (ip c1) s = enc T (PUSHNULL T) p2 @ drop (ip c2) s" using N2(2) pr by simp
  also have "drop (ip c2) s = enc T (SYSCALL T) p3 @ drop (ip c3) s" using N3(2) pr by simp
  also have "drop (ip c3) s = []" by (rule z)
  finally have "s = signature_script T p1"
    by (simp add: signature_script_def enc_pushdata1 enc_simple[OF D] p2 p3)
  with l1 res show ?thesis by blast
qed

subsection \<open>The classifier against the templates\<close>

lemma distinct_sample: "distinct_opcodes sample_consts"
  by (simp add: distinct_opcodes_def PUSHn_def PUSH_def sample_consts_def upt_rec)

lemma sample_fields:
  "PUSHBYTES1 sample_consts = 0x01" "PUSHBYTES2 sample_consts = 0x02"
  "PUSHDATA1 sample_consts = 0x4C" "PUSHNULL sample_consts = 0x50" "PUSH1 sample_consts = 0x51"
  "RET sample_consts = 0x66" "SYSCALL sample_consts = 0x68" "MaxArraySize sample_consts = 1024"
  "verifyInteropID sample_consts = 0x01020304" "multisigInteropID sample_consts = 0x05060708"
  by (simp_all add: sample_consts_def)

lemma signature_template_iff:
  "signature_template T b \<longleftrightarrow> (\<exists>key. length key = 33 \<and> b = signature_script T key)"
proof
  assume "signature_template T b"
  then have "length b = 41" "b = signature_script T (take 33 (drop 2 b))"
    by (simp_all add: signature_template_def)
  then show "\<exists>key. length key = 33 \<and> b = signature_script T key"
    by (intro exI[of _ "take 33 (drop 2 b)"]) simp
next
  assume "\<exists>key. length key = 33 \<and> b = signature_script T key"
  then obtain key where k: "length key = 33" "b = signature_script T key" by blast
  then have "take 33 (drop 2 b) = key"
    by (simp add: signature_script_def pushdata1_def)
  with k show "signature_template T b"
    by (simp add: signature_template_def length_signature_script)
qed

lemma IsSig_eq:
  assumes "distinct_opcodes T"
  shows "IsSignatureContract T b = Inr (signature_template T b)"
proof (cases "signature_template T b")
  case True
  then show ?thesis using IsSig_script[OF assms] by (auto simp: signature_template_iff)
next
  case False
  then show ?thesis using IsSig_cases[OF assms, of b] by (auto simp: signature_template_iff)
qed

lemma Parse_template:
  assumes "distinct_opcodes T" "multisig_template T b"
  shows "\<exists>keys. ParseMultiSigContract T b = Inr (keys, True)"
proof -
  from assms(2) obtain m n keys where k: "numpush_ok m" "numpush_ok n"
    "\<forall>k\<in>set keys. length k < 256" "multisig_accepts T m keys n" "b = multisig_script T m keys n"
    by (auto simp: multisig_template_def list_all_iff)
  from Parse_script[OF assms(1) k(1,2,3), of "[]"] k(4,5) show ?thesis by auto
qed

lemma Parse_not_template:
  assumes "distinct_opcodes T" "\<not> multisig_template T b"
  shows "ParseMultiSigContract T b = Inr ([], False)"
  using Parse_cases[OF assms(1), of b] assms(2)
  by (auto simp: multisig_template_def list_all_iff)

lemma IsMultiSig_eq:
  assumes "distinct_opcodes T"
  shows "IsMultiSigContract T b = Inr (multisig_template T b)"
proof (cases "multisig_template T b")
  case True
  from Parse_template[OF assms True] obtain keys where
    "ParseMultiSigContract T b = Inr (keys, True)" by blast
  with True show ?thesis by (simp add: IsMultiSigContract_def)
next
  case False
  with Parse_not_template[OF assms] show ?thesis by (simp add: IsMultiSigContract_def)
qed

lemma IsStandard_eq:
  assumes "distinct_opcodes T"
  shows "IsStandardContract T b = Inr (signature_template T b \<or> multisig_template T b)"
  by (cases "signature_template T b")
    (simp_all add: IsStandardContract_def IsSig_eq[OF assms] IsMultiSig_eq[OF assms])

lemma length_multisig_script: "9 \<le> length (multisig_script T m keys n)"
  by (simp add: multisig_script_def push_bytes_def PutUint32_def)

lemma short_not_template:
  assumes "length b < 9"
  shows "\<not> signature_template T b \<and> \<not> multisig_template T b"
proof -
  have "\<not> multisig_template T b"
  proof
    assume "multisig_template T b"
    then obtain m n keys where "b = multisig_script T m keys n"
      by (auto simp: multisig_template_def)
    with length_multisig_script[of T m keys n] assms show False by simp
  qed
  with assms show ?thesis by (simp add: signature_template_def)
qed

lemma split41:
  assumes "length s = 41"
  shows "s = s ! 0 # s ! 1 # take 33 (drop 2 s) @ s ! 35 # s ! 36 # drop 37 s"
proof -
  have a: "drop 35 s = s ! 35 # s ! 36 # drop 37 s"
    using assms Cons_nth_drop_Suc[of 35 s] Cons_nth_drop_Suc[of 36 s] by simp
  have "take 33 (drop 2 s) @ drop 33 (drop 2 s) = drop 2 s" by (rule append_take_drop_id)
  then have "take 33 (drop 2 s) @ drop 35 s = drop 2 s" by simp
  then have b: "drop 2 s = take 33 (drop 2 s) @ s ! 35 # s ! 36 # drop 37 s"
    unfolding a by (rule sym)
  have "s ! 0 # drop (Suc 0) s = drop 0 s" "s ! Suc 0 # drop (Suc (Suc 0)) s = drop (Suc 0) s"
    using assms by (simp_all only: Cons_nth_drop_Suc)
  then have "s = s ! 0 # s ! 1 # drop 2 s" by (simp add: numeral_2_eq_2)
  then show ?thesis unfolding b[symmetric] .
qed

lemma signature_template_layout: "signature_template T s \<longleftrightarrow> signature_layout T s"
proof
  assume "signature_template T s"
  then obtain key where k: "length key = 33" "s = signature_script T key"
    by (auto simp: signature_template_iff)
  show "signature_layout T s"
    unfolding signature_layout_def k(2)
    using k(1) by (simp add: signature_script_def pushdata1_def PutUint32_def nth_append)
next
  assume a: "signature_layout T s"
  then have l: "length s = 41" by (simp add: signature_layout_def)
  from a split41[OF l]
  have "s = PUSHDATA1 T # 33 # take 33 (drop 2 s) @ PUSHNULL T # SYSCALL T #
    PutUint32 (verifyInteropID T)"
    by (simp add: signature_layout_def)
  moreover have "length (take 33 (drop 2 s)) = 33" using l by simp
  ultimately have "s = signature_script T (take 33 (drop 2 s))"
    by (simp add: signature_script_def pushdata1_def)
  with l show "signature_template T s" by (simp add: signature_template_def)
qed

lemma layout_update_outside:
  assumes "signature_layout T s" "i < 41" "i < 2 \<or> 35 \<le> i" "b \<noteq> s ! i"
  shows "\<not> signature_layout T (s[i := b])"
proof
  assume u: "signature_layout T (s[i := b])"
  from assms(1) have l: "length s = 41" by (simp add: signature_layout_def)
  consider "i = 0" | "i = 1" | "i = 35" | "i = 36" | "37 \<le> i" using assms(2,3) by linarith
  then show False
  proof cases
    case 5
    from u assms(1) have "drop 37 (s[i := b]) = drop 37 s" by (simp add: signature_layout_def)
    then have "drop 37 (s[i := b]) ! (i - 37) = drop 37 s ! (i - 37)" by simp
    with 5 l assms(2,4) show False by simp
  qed (use u assms l in \<open>auto simp: signature_layout_def\<close>)
qed

lemma layout_update_inside:
  assumes "signature_layout T s" "2 \<le> i" "i < 35"
  shows "signature_layout T (s[i := b])"
  using assms by (auto simp: signature_layout_def drop_update_cancel)

lemma getNum_D:
  assumes "getNumOfThingsFromInstr T instr param = Inr (v, True)"
  shows "1 \<le> v \<and> v \<le> MaxArraySize T \<and>
    (instr \<in> set (PUSHn T) \<and> v = int (unat (instr - PUSH1 T)) + 1 \<and> v \<le> 16 \<or>
     instr = PUSHBYTES1 T \<and> param \<noteq> [] \<and> v = int (unat (param ! 0)) \<or>
     instr = PUSHBYTES2 T \<and> 2 \<le> length param \<and>
       v = int (unat (param ! 0) + 256 * unat (param ! 1)))"
proof (cases "instr \<in> set (PUSHn T)")
  case True
  then have "int (unat (instr - PUSH1 T)) + 1 \<le> 16" unfolding PUSHn_iff by linarith
  moreover have "0 \<le> int (unat (instr - PUSH1 T))" by (rule of_nat_0_le_iff)
  ultimately show ?thesis using True assms
    by (auto simp: getNumOfThingsFromInstr_def Let_def split: if_splits)
next
  case False
  with assms show ?thesis
    by (auto simp: getNumOfThingsFromInstr_def Let_def LittleEndian_Uint16_def
        split: if_splits)
qed

lemma getNum_PUSH:
  assumes "1 \<le> k" "k \<le> 16"
  shows "getNumOfThingsFromInstr T (PUSH T k) [] =
    Inr (if int k \<le> MaxArraySize T then (int k, True) else (0, False))"
  using assms PUSH_in_PUSHn[OF assms, of T] unat_PUSH_diff[OF assms, of T]
  by (simp add: getNumOfThingsFromInstr_def)

subsection \<open>Manifests\<close>

lemma groups_valid_iff:
  "groups_valid verify h gs \<longleftrightarrow> (\<forall>g\<in>set gs. verify (PublicKey g) h (Signature g))"
  by (induction gs) auto

lemma has_group_iff: "has_group k gs \<longleftrightarrow> k \<in> PublicKey ` set gs"
  by (induction gs) auto

lemma has_group_resigned: "has_group k (map (\<lambda>g. g\<lparr>Signature := sg g\<rparr>) gs) = has_group k gs"
  by (induction gs) auto

lemma any_allowed_iff:
  "any_allowed ps h m method \<longleftrightarrow> (\<exists>p\<in>set ps. IsAllowed p h m method)"
  by (induction ps) auto

text \<open>The cases of the tests of package \<open>manifest\<close>, run on the model.\<close>

lemma TestManifest_CanCall:
  "CanCall 0 (DefaultManifest ''Test2'' :: unit Manifest) (DefaultManifest ''Test1'' :: unit Manifest)
     ''method1''"
  by (simp add: CanCall_def DefaultManifest_def NewPermission_def IsAllowed_def)

lemma TestPermission_IsAllowed:
  fixes manifest :: "unit Manifest"
  assumes "manifest = DefaultManifest ''Test''" and "k2 \<noteq> k"
  shows "IsAllowed (NewPermission PermissionWildcard) 0 manifest ''AAA''"
    and "IsAllowed (NewPermission (PermissionHash 0)) 0 manifest ''AAA''"
    and "\<not> IsAllowed ((NewPermission (PermissionHash 0))\<lparr>Methods := Restricted []\<rparr>) 0 manifest ''AAA''"
    and "IsAllowed ((NewPermission (PermissionHash 0))\<lparr>Methods := Restricted [''AAA'']\<rparr>) 0 manifest ''AAA''"
    and "\<not> IsAllowed (NewPermission (PermissionHash 1)) 0 manifest ''AAA''"
    and "IsAllowed (NewPermission (PermissionGroup k)) 0
           (manifest\<lparr>Groups := [\<lparr>PublicKey = k, Signature = ()\<rparr>]\<rparr>) ''AAA''"
    and "\<not> IsAllowed (NewPermission (PermissionGroup k2)) 0
           (manifest\<lparr>Groups := [\<lparr>PublicKey = k, Signature = ()\<rparr>]\<rparr>) ''AAA''"
  using assms by (simp_all add: IsAllowed_def NewPermission_def DefaultManifest_def)

lemma TestIsValid:
  assumes "m = (DefaultManifest ''Test'')\<lparr>Groups := [sample_group k1 h, sample_group k2 h, sample_group k3 h]\<rparr>"
    and "h' \<noteq> h"
  shows "IsValid sample_verify (DefaultManifest ''Test'') h"
    and "IsValid sample_verify m h"
    and "\<not> IsValid sample_verify m h'"
    and "\<not> IsValid sample_verify (m\<lparr>Groups := Groups m @ [sample_group k4 h']\<rparr>) h"
  using assms by (simp_all add: IsValid_def DefaultManifest_def sample_verify_def sample_group_def)

section \<open>The claims\<close>

text \<open>
  C1: for every byte buffer, \<open>IsSignatureContract\<close>, \<open>ParseMultiSigContract\<close>,
  \<open>IsMultiSigContract\<close> and \<open>IsStandardContract\<close> return a value and never panic, and
  the value is a rejection (false, no keys) unless the buffer is exactly one of the two
  canonical templates.
\<close>

theorem classification_total_and_rejecting:
  assumes "distinct_opcodes T"
  shows "(\<exists>r. IsSignatureContract T b = Inr r) \<and> (\<exists>r. ParseMultiSigContract T b = Inr r) \<and>
    (\<exists>r. IsMultiSigContract T b = Inr r) \<and> (\<exists>r. IsStandardContract T b = Inr r) \<and>
    (\<not> signature_template T b \<longrightarrow> IsSignatureContract T b = Inr False) \<and>
    (\<not> multisig_template T b \<longrightarrow>
       ParseMultiSigContract T b = Inr ([], False) \<and> IsMultiSigContract T b = Inr False) \<and>
    (\<not> signature_template T b \<and> \<not> multisig_template T b \<longrightarrow>
       IsStandardContract T b = Inr False)"
proof -
  have "\<exists>r. ParseMultiSigContract T b = Inr r"
    using Parse_cases[OF assms, of b] by auto
  then show ?thesis
    using Parse_not_template[OF assms, of b]
    by (simp add: IsSig_eq[OF assms] IsMultiSig_eq[OF assms] IsStandard_eq[OF assms])
qed

theorem classification_total_and_rejecting_witness:
  "distinct_opcodes sample_consts \<and>
   IsSignatureContract sample_consts [0x4C, 0x21, 0x03] = Inr False \<and>
   ParseMultiSigContract sample_consts [0x4C, 0x21, 0x03] = Inr ([], False) \<and>
   IsMultiSigContract sample_consts [0x4C, 0x21, 0x03] = Inr False \<and>
   IsStandardContract sample_consts [0x4C, 0x21, 0x03] = Inr False"
  using classification_total_and_rejecting[OF distinct_sample, of "[0x4C, 0x21, 0x03]"]
    short_not_template[of "[0x4C, 0x21, 0x03]" sample_consts] distinct_sample
  by simp

text \<open>
  C2: a multi-signature script whose second count differs from the number of keys, whose
  threshold exceeds the number of keys, one of whose \<open>PUSHDATA1\<close> keys is shorter than 33
  bytes, or that has bytes left after \<open>RET\<close>, makes \<open>ParseMultiSigContract\<close> return
  no keys and \<open>ok = false\<close>.
\<close>

theorem malformed_multisig_rejected:
  assumes "distinct_opcodes T" and "numpush_ok m" and "numpush_ok n"
    and "\<forall>k\<in>set keys. length k < 256"
    and "numval n \<noteq> int (length keys) \<or> int (length keys) < numval m \<or>
         (\<exists>k\<in>set keys. length k < 33) \<or> trailer \<noteq> []"
  shows "ParseMultiSigContract T (multisig_script T m keys n @ trailer) = Inr ([], False)"
proof -
  from assms(5) have "\<not> (multisig_accepts T m keys n \<and> trailer = [])"
    by (fastforce simp: multisig_accepts_def list_all_iff)
  with Parse_script[OF assms(1-4), of trailer] show ?thesis by simp
qed

theorem malformed_multisig_rejected_witness:
  "ParseMultiSigContract sample_consts
     ([0x51, 0x4C, 0x21] @ replicate 33 2 @ [0x52, 0x50, 0x68, 0x08, 0x07, 0x06, 0x05, 0x66]) =
     Inr ([], False) \<and>
   ParseMultiSigContract sample_consts
     ([0x52, 0x4C, 0x21] @ replicate 33 2 @ [0x51, 0x50, 0x68, 0x08, 0x07, 0x06, 0x05, 0x66]) =
     Inr ([], False) \<and>
   ParseMultiSigContract sample_consts
     ([0x51, 0x4C, 0x20] @ replicate 32 2 @ [0x51, 0x50, 0x68, 0x08, 0x07, 0x06, 0x05, 0x66]) =
     Inr ([], False) \<and>
   ParseMultiSigContract sample_consts
     ([0x51, 0x4C, 0x21] @ replicate 33 2 @ [0x51, 0x50, 0x68, 0x08, 0x07, 0x06, 0x05, 0x66, 0x61]) =
     Inr ([], False)"
proof -
  have e:
    "multisig_script sample_consts (SmallInt 1) [replicate 33 2] (SmallInt 2) @ [] =
       [0x51, 0x4C, 0x21] @ replicate 33 2 @ [0x52, 0x50, 0x68, 0x08, 0x07, 0x06, 0x05, 0x66]"
    "multisig_script sample_consts (SmallInt 2) [replicate 33 2] (SmallInt 1) @ [] =
       [0x52, 0x4C, 0x21] @ replicate 33 2 @ [0x51, 0x50, 0x68, 0x08, 0x07, 0x06, 0x05, 0x66]"
    "multisig_script sample_consts (SmallInt 1) [replicate 32 2] (SmallInt 1) @ [] =
       [0x51, 0x4C, 0x20] @ replicate 32 2 @ [0x51, 0x50, 0x68, 0x08, 0x07, 0x06, 0x05, 0x66]"
    "multisig_script sample_consts (SmallInt 1) [replicate 33 2] (SmallInt 1) @ [0x61] =
       [0x51, 0x4C, 0x21] @ replicate 33 2 @ [0x51, 0x50, 0x68, 0x08, 0x07, 0x06, 0x05, 0x66, 0x61]"
    by code_simp+
  have h: "numpush_ok (SmallInt 1)" "numpush_ok (SmallInt 2)"
    "\<forall>k\<in>set [replicate 33 (2 :: byte)]. length k < 256"
    "\<forall>k\<in>set [replicate 32 (2 :: byte)]. length k < 256"
    by simp_all
  show ?thesis
    using malformed_multisig_rejected[OF distinct_sample h(1) h(2) h(3), of "[]"]
      malformed_multisig_rejected[OF distinct_sample h(2) h(1) h(3), of "[]"]
      malformed_multisig_rejected[OF distinct_sample h(1) h(1) h(4), of "[]"]
      malformed_multisig_rejected[OF distinct_sample h(1) h(1) h(3), of "[0x61]"]
    unfolding e by simp
qed

text \<open>
  C3, as stated, has \<open>ParseMultiSigContract\<close> return the threshold with the keys. The
  function returns the keys and \<open>ok\<close> only: two canonical scripts over the same keys with
  thresholds 1 and 2 give the same result.
\<close>

theorem multisig_threshold_not_returned:
  "ParseMultiSigContract sample_consts
     ([0x51, 0x4C, 0x21] @ replicate 33 2 @ [0x4C, 0x21] @ replicate 33 3 @
      [0x52, 0x50, 0x68, 0x08, 0x07, 0x06, 0x05, 0x66]) =
     Inr ([replicate 33 2, replicate 33 3], True) \<and>
   ParseMultiSigContract sample_consts
     ([0x52, 0x4C, 0x21] @ replicate 33 2 @ [0x4C, 0x21] @ replicate 33 3 @
      [0x52, 0x50, 0x68, 0x08, 0x07, 0x06, 0x05, 0x66]) =
     Inr ([replicate 33 2, replicate 33 3], True)"
  by code_simp

text \<open>
  C3, amended: for a threshold \<open>m\<close> and keys \<open>k_1 .. k_n\<close> with \<open>1 \<le> m \<le> n \<le> MaxArraySize\<close>,
  the canonical multi-signature script built from them parses to exactly the key list, in
  order, with \<open>ok = true\<close>; the threshold is checked and is not part of the result.
\<close>

theorem multisig_round_trip:
  assumes "distinct_opcodes T" and "numpush_ok m" and "numpush_ok n"
    and "1 \<le> numval m" and "numval m \<le> int (length keys)"
    and "numval n = int (length keys)" and "int (length keys) \<le> MaxArraySize T"
    and "\<forall>k\<in>set keys. 33 \<le> length k \<and> length k < 256"
  shows "ParseMultiSigContract T (multisig_script T m keys n) = Inr (keys, True) \<and>
    IsMultiSigContract T (multisig_script T m keys n) = Inr True"
proof -
  from assms(4-8) have "multisig_accepts T m keys n"
    by (auto simp: multisig_accepts_def list_all_iff)
  moreover from assms(8) have "\<forall>k\<in>set keys. length k < 256" by simp
  ultimately have "ParseMultiSigContract T (multisig_script T m keys n) = Inr (keys, True)"
    using Parse_script[OF assms(1-3), of keys "[]"] by simp
  then show ?thesis by (simp add: IsMultiSigContract_def)
qed

theorem multisig_round_trip_witness:
  "ParseMultiSigContract sample_consts
     ([0x52, 0x4C, 0x21] @ replicate 33 2 @ [0x4C, 0x21] @ replicate 33 3 @
      [0x4C, 0x21] @ replicate 33 4 @ [0x01, 0x03, 0x50, 0x68, 0x08, 0x07, 0x06, 0x05, 0x66]) =
     Inr ([replicate 33 2, replicate 33 3, replicate 33 4], True) \<and>
   IsMultiSigContract sample_consts
     ([0x52, 0x4C, 0x21] @ replicate 33 2 @ [0x4C, 0x21] @ replicate 33 3 @
      [0x4C, 0x21] @ replicate 33 4 @ [0x01, 0x03, 0x50, 0x68, 0x08, 0x07, 0x06, 0x05, 0x66]) =
     Inr True"
proof -
  have e: "multisig_script sample_consts (SmallInt 2)
        [replicate 33 2, replicate 33 3, replicate 33 4] (Imm1 3) =
      [0x52, 0x4C, 0x21] @ replicate 33 2 @ [0x4C, 0x21] @ replicate 33 3 @
      [0x4C, 0x21] @ replicate 33 4 @ [0x01, 0x03, 0x50, 0x68, 0x08, 0x07, 0x06, 0x05, 0x66]"
    by code_simp
  show ?thesis
    using multisig_round_trip[OF distinct_sample, of "SmallInt 2" "Imm1 3"
        "[replicate 33 2, replicate 33 3, replicate 33 4]"]
    unfolding e by (simp add: sample_fields)
qed

text \<open>
  C4, as stated, has every single-byte change of a valid signature script rejected. A
  change inside the 33-byte key operand gives another valid signature script: here the
  byte at offset 2 goes from 2 to 3.
\<close>

theorem signature_key_byte_mutation:
  "IsSignatureContract sample_consts
     ([0x4C, 0x21] @ replicate 33 2 @ [0x50, 0x68, 0x04, 0x03, 0x02, 0x01]) = Inr True \<and>
   IsSignatureContract sample_consts
     ([0x4C, 0x21] @ (3 # replicate 32 2) @ [0x50, 0x68, 0x04, 0x03, 0x02, 0x01]) = Inr True \<and>
   ([0x4C, 0x21] @ replicate 33 2 @ [0x50, 0x68, 0x04, 0x03, 0x02, 0x01 :: byte])[2 := 3] =
     [0x4C, 0x21] @ (3 # replicate 32 2) @ [0x50, 0x68, 0x04, 0x03, 0x02, 0x01]"
  by code_simp

text \<open>
  C4, amended: \<open>IsSignatureContract\<close> is true exactly for the 41-byte scripts made of
  \<open>PUSHDATA1\<close> with a 33-byte operand, \<open>PUSHNULL\<close> and \<open>SYSCALL\<close> with the verify
  identifier; changing one byte of such a script outside the key operand makes it false,
  and changing one byte of the key operand leaves it true.
\<close>

theorem signature_contract_template:
  assumes "distinct_opcodes T"
  shows "IsSignatureContract T s =
      Inr (length s = 41 \<and> s ! 0 = PUSHDATA1 T \<and> s ! 1 = 33 \<and> s ! 35 = PUSHNULL T \<and>
           s ! 36 = SYSCALL T \<and> drop 37 s = PutUint32 (verifyInteropID T)) \<and>
    (IsSignatureContract T s = Inr True \<and> i < 41 \<and> (i < 2 \<or> 35 \<le> i) \<and> b \<noteq> s ! i \<longrightarrow>
       IsSignatureContract T (s[i := b]) = Inr False) \<and>
    (IsSignatureContract T s = Inr True \<and> 2 \<le> i \<and> i < 35 \<longrightarrow>
       IsSignatureContract T (s[i := b]) = Inr True)"
proof -
  have e: "IsSignatureContract T x = Inr (signature_layout T x)" for x
    by (simp add: IsSig_eq[OF assms] signature_template_layout)
  have "IsSignatureContract T s =
      Inr (length s = 41 \<and> s ! 0 = PUSHDATA1 T \<and> s ! 1 = 33 \<and> s ! 35 = PUSHNULL T \<and>
           s ! 36 = SYSCALL T \<and> drop 37 s = PutUint32 (verifyInteropID T))"
    by (simp add: e signature_layout_def)
  moreover have "IsSignatureContract T (s[i := b]) = Inr False"
    if "IsSignatureContract T s = Inr True" "i < 41" "i < 2 \<or> 35 \<le> i" "b \<noteq> s ! i"
    using layout_update_outside[of T s i b] that by (simp add: e)
  moreover have "IsSignatureContract T (s[i := b]) = Inr True"
    if "IsSignatureContract T s = Inr True" "2 \<le> i" "i < 35"
    using layout_update_inside[of T s i b] that by (simp add: e)
  ultimately show ?thesis by blast
qed

theorem signature_contract_template_witness:
  "IsSignatureContract sample_consts
     ([0x4C, 0x21] @ replicate 33 2 @ [0x50, 0x68, 0x04, 0x03, 0x02, 0x01]) = Inr True \<and>
   IsSignatureContract sample_consts
     (([0x4C, 0x21] @ replicate 33 2 @ [0x50, 0x68, 0x04, 0x03, 0x02, 0x01])[0 := 0x4D]) = Inr False \<and>
   IsSignatureContract sample_consts
     (([0x4C, 0x21] @ replicate 33 2 @ [0x50, 0x68, 0x04, 0x03, 0x02, 0x01])[40 := 0xFF]) = Inr False \<and>
   IsSignatureContract sample_consts
     (([0x4C, 0x21] @ replicate 33 2 @ [0x50, 0x68, 0x04, 0x03, 0x02, 0x01])[34 := 0xFF]) = Inr True"
proof -
  let ?s = "[0x4C, 0x21] @ replicate 33 2 @ [0x50, 0x68, 0x04, 0x03, 0x02, 0x01 :: byte]"
  have a: "IsSignatureContract sample_consts ?s = Inr True" by code_simp
  have b: "?s ! 0 \<noteq> 0x4D" "?s ! 40 \<noteq> 0xFF" by code_simp+
  show ?thesis
    using a b signature_contract_template[OF distinct_sample, of ?s 0 "0x4D", THEN conjunct2]
      signature_contract_template[OF distinct_sample, of ?s 40 "0xFF", THEN conjunct2]
      signature_contract_template[OF distinct_sample, of ?s 34 "0xFF", THEN conjunct2]
    by auto
qed

text \<open>
  C5: a count is read from one of \<open>PUSH1\<close> .. \<open>PUSH16\<close> (values 1 .. 16) or from a 1-byte or
  2-byte immediate push and is accepted only between 1 and \<open>MaxArraySize\<close>; a script that
  \<open>ParseMultiSigContract\<close> accepts has a threshold of at least 1 and at most the number
  of keys, and a second count equal to the number of keys.
\<close>

theorem numeric_counts:
  assumes "distinct_opcodes T"
  shows "(getNumOfThingsFromInstr T instr param = Inr (v, True) \<longrightarrow>
      1 \<le> v \<and> v \<le> MaxArraySize T \<and>
      (instr \<in> set (PUSHn T) \<and> v = int (unat (instr - PUSH1 T)) + 1 \<and> v \<le> 16 \<or>
       instr = PUSHBYTES1 T \<and> param \<noteq> [] \<and> v = int (unat (param ! 0)) \<or>
       instr = PUSHBYTES2 T \<and> 2 \<le> length param \<and>
         v = int (unat (param ! 0) + 256 * unat (param ! 1)))) \<and>
    (1 \<le> k \<and> k \<le> 16 \<longrightarrow>
      getNumOfThingsFromInstr T (PUSH T k) [] =
        Inr (if int k \<le> MaxArraySize T then (int k, True) else (0, False))) \<and>
    (ParseMultiSigContract T s = Inr (keys, True) \<longrightarrow>
      (\<exists>m n. numpush_ok m \<and> numpush_ok n \<and> s = multisig_script T m keys n \<and>
         1 \<le> numval m \<and> numval m \<le> int (length keys) \<and> numval n = int (length keys) \<and>
         int (length keys) \<le> MaxArraySize T))"
proof -
  have "\<exists>m n. numpush_ok m \<and> numpush_ok n \<and> s = multisig_script T m keys n \<and>
         1 \<le> numval m \<and> numval m \<le> int (length keys) \<and> numval n = int (length keys) \<and>
         int (length keys) \<le> MaxArraySize T"
    if "ParseMultiSigContract T s = Inr (keys, True)"
    using Parse_cases[OF assms, of s] that by (auto simp: multisig_accepts_def)
  then show ?thesis using getNum_D[of T instr param v] getNum_PUSH[of k T] by blast
qed

theorem numeric_counts_witness:
  "getNumOfThingsFromInstr sample_consts 0x60 [] = Inr (16, True) \<and>
   (\<exists>m n. numpush_ok m \<and> numpush_ok n \<and>
      [0x51, 0x4C, 0x21] @ replicate 33 2 @ [0x4C, 0x22] @ replicate 34 3 @
      [0x02, 0x02, 0x00, 0x50, 0x68, 0x08, 0x07, 0x06, 0x05, 0x66] =
        multisig_script sample_consts m [replicate 33 2, replicate 34 3] n \<and>
      1 \<le> numval m \<and> numval m \<le> 2 \<and> numval n = 2)"
proof -
  let ?s = "[0x51, 0x4C, 0x21] @ replicate 33 2 @ [0x4C, 0x22] @ replicate 34 3 @
      [0x02, 0x02, 0x00, 0x50, 0x68, 0x08, 0x07, 0x06, 0x05, 0x66 :: byte]"
  have "ParseMultiSigContract sample_consts ?s = Inr ([replicate 33 2, replicate 34 3], True)"
    by code_simp
  moreover have "PUSH sample_consts 16 = 0x60" by code_simp
  ultimately show ?thesis
    using numeric_counts[OF distinct_sample, of _ _ _ 16 ?s "[replicate 33 2, replicate 34 3]"]
    by (simp add: sample_fields)
qed

text \<open>
  C6: \<open>IsValid\<close> is true for an identity \<open>H\<close> exactly when every group's signature verifies
  with the group's key over \<open>H\<close>. It is true with no groups; it is true for \<open>H\<close> when every
  group is correctly signed over \<open>H\<close>, and then, with at least one group, false for every
  other identity; it is false as soon as one signature does not verify. A group is
  correctly signed over \<open>H\<close> when its signature verifies with its key over \<open>H\<close> and over
  no other identity.
\<close>

theorem manifest_groups_valid:
  "(IsValid verify m h \<longleftrightarrow> (\<forall>g\<in>set (Groups m). verify (PublicKey g) h (Signature g))) \<and>
   (Groups m = [] \<longrightarrow> IsValid verify m h) \<and>
   ((\<forall>g\<in>set (Groups m). \<forall>x. verify (PublicKey g) x (Signature g) \<longleftrightarrow> x = h) \<longrightarrow>
      IsValid verify m h \<and> (Groups m \<noteq> [] \<longrightarrow> (\<forall>h'. h' \<noteq> h \<longrightarrow> \<not> IsValid verify m h'))) \<and>
   ((\<exists>g\<in>set (Groups m). \<not> verify (PublicKey g) h (Signature g)) \<longrightarrow> \<not> IsValid verify m h)"
proof -
  have "\<not> IsValid verify m h'"
    if s: "\<forall>g\<in>set (Groups m). \<forall>x. verify (PublicKey g) x (Signature g) \<longleftrightarrow> x = h"
      and n: "Groups m \<noteq> []" and d: "h' \<noteq> h" for h'
  proof
    assume a: "IsValid verify m h'"
    from n obtain g where g: "g \<in> set (Groups m)" by (cases "Groups m") auto
    with a have "verify (PublicKey g) h' (Signature g)"
      by (simp add: IsValid_def groups_valid_iff)
    with s g have "h' = h" by blast
    with d show False by simp
  qed
  then show ?thesis by (auto simp: IsValid_def groups_valid_iff)
qed

theorem manifest_groups_valid_witness:
  "IsValid sample_verify (DefaultManifest ''Test'') 1 \<and>
   IsValid sample_verify
     ((DefaultManifest ''Test'')\<lparr>Groups := [sample_group [2] 1, sample_group [3] 1, sample_group [4] 1]\<rparr>) 1 \<and>
   \<not> IsValid sample_verify
     ((DefaultManifest ''Test'')\<lparr>Groups := [sample_group [2] 1, sample_group [3] 1, sample_group [4] 1]\<rparr>) 2 \<and>
   \<not> IsValid sample_verify
     ((DefaultManifest ''Test'')\<lparr>Groups := [sample_group [2] 1, sample_group [3] 1, sample_group [4] 5]\<rparr>) 1"
proof -
  let ?m = "(DefaultManifest ''Test'')\<lparr>Groups := [sample_group [2] 1, sample_group [3] 1, sample_group [4] 1]\<rparr>"
  let ?bad = "(DefaultManifest ''Test'')\<lparr>Groups := [sample_group [2] 1, sample_group [3] 1, sample_group [4] 5]\<rparr>"
  have z: "Groups (DefaultManifest ''Test'' :: (PublicKey \<times> Uint160) Manifest) = []"
    by (simp add: DefaultManifest_def)
  have s: "\<forall>g\<in>set (Groups ?m). \<forall>x. sample_verify (PublicKey g) x (Signature g) \<longleftrightarrow> x = 1"
    by (auto simp: sample_verify_def sample_group_def)
  have n: "Groups ?m \<noteq> []" by simp
  have f: "\<exists>g\<in>set (Groups ?bad). \<not> sample_verify (PublicKey g) 1 (Signature g)"
    by (simp add: sample_verify_def sample_group_def)
  have "IsValid sample_verify (DefaultManifest ''Test'') 1"
    using manifest_groups_valid[of sample_verify "DefaultManifest ''Test''" 1] z by blast
  moreover have "IsValid sample_verify ?m 1" "\<not> IsValid sample_verify ?m 2"
    using manifest_groups_valid[of sample_verify ?m 1] s n by auto
  moreover have "\<not> IsValid sample_verify ?bad 1"
    using manifest_groups_valid[of sample_verify ?bad 1] f by blast
  ultimately show ?thesis by blast
qed

text \<open>
  C7: for a permission whose target is a group, the identity part of \<open>IsAllowed\<close> holds
  exactly when the caller's manifest has a group with the stored key; the result does not
  change with the caller's identity nor with the signatures of the caller's groups.
\<close>

theorem group_permission_by_key:
  "identity_matches (PermissionGroup k) h m = (k \<in> PublicKey ` set (Groups m)) \<and>
   IsAllowed \<lparr>Contract = PermissionGroup k, Methods = ms\<rparr> h m method =
     (k \<in> PublicKey ` set (Groups m) \<and> method_matches ms method) \<and>
   IsAllowed \<lparr>Contract = PermissionGroup k, Methods = ms\<rparr> h'
       (m\<lparr>Groups := map (\<lambda>g. g\<lparr>Signature := sg g\<rparr>) (Groups m)\<rparr>) method =
     IsAllowed \<lparr>Contract = PermissionGroup k, Methods = ms\<rparr> h m method"
  by (simp add: IsAllowed_def has_group_iff[symmetric] has_group_resigned)

text \<open>
  C8: \<open>CanCall\<close> is true exactly when some permission of the target manifest is allowed
  for the caller and the method; for a default manifest it is true for every caller and
  method.
\<close>

theorem can_call_any_permission:
  "CanCall h cm tm method = (\<exists>p\<in>set (Permissions tm). IsAllowed p h cm method) \<and>
   CanCall h cm (DefaultManifest n) method"
  by (simp add: CanCall_def any_allowed_iff DefaultManifest_def NewPermission_def IsAllowed_def)

text \<open>
  C9: a \<open>historicConverter\<close> made by \<open>NewHistoricAtBlock\<close>, \<open>NewHistoricAtHeight\<close> or
  \<open>NewHistoricWithState\<close> has exactly one of its three targets set, and each of its
  dispatch methods forwards to the client; a dispatch method panics exactly when none of
  the three targets is set, which no constructor produces.
\<close>

theorem historic_converter_initialized:
  "targets_set (invoker_client (NewHistoricAtBlock b c sg)) = 1 \<and>
   targets_set (invoker_client (NewHistoricAtHeight n c sg)) = 1 \<and>
   targets_set (invoker_client (NewHistoricWithState r c sg)) = 1 \<and>
   InvokeScript (invoker_client (NewHistoricAtBlock b c sg)) script s =
     Inr (InvokeScriptAtBlock b script s) \<and>
   InvokeScript (invoker_client (NewHistoricAtHeight n c sg)) script s =
     Inr (InvokeScriptAtHeight n script s) \<and>
   InvokeScript (invoker_client (NewHistoricWithState r c sg)) script s =
     Inr (InvokeScriptWithState r script s) \<and>
   InvokeFunction (invoker_client (NewHistoricAtBlock b c sg)) contract operation ps s =
     Inr (InvokeFunctionAtBlock b contract operation ps s) \<and>
   InvokeFunction (invoker_client (NewHistoricAtHeight n c sg)) contract operation ps s =
     Inr (InvokeFunctionAtHeight n contract operation ps s) \<and>
   InvokeFunction (invoker_client (NewHistoricWithState r c sg)) contract operation ps s =
     Inr (InvokeFunctionWithState r contract operation ps s) \<and>
   InvokeContractVerify (invoker_client (NewHistoricAtBlock b c sg)) contract ps s ws =
     Inr (InvokeContractVerifyAtBlock b contract ps s ws) \<and>
   InvokeContractVerify (invoker_client (NewHistoricAtHeight n c sg)) contract ps s ws =
     Inr (InvokeContractVerifyAtHeight n contract ps s ws) \<and>
   InvokeContractVerify (invoker_client (NewHistoricWithState r c sg)) contract ps s ws =
     Inr (InvokeContractVerifyWithState r contract ps s ws) \<and>
   ((InvokeScript h script s = Inl UninitializedHistoricConverter) = (targets_set h = 0)) \<and>
   ((InvokeFunction h contract operation ps s = Inl UninitializedHistoricConverter) =
      (targets_set h = 0)) \<and>
   ((InvokeContractVerify h contract ps s ws = Inl UninitializedHistoricConverter) =
      (targets_set h = 0))"
  by (simp add: NewHistoricAtBlock_def NewHistoricAtHeight_def NewHistoricWithState_def New_def
      targets_set_def InvokeScript_def InvokeFunction_def InvokeContractVerify_def
      split: option.splits)

text \<open>
  C10: no byte buffer is both a signature contract and a multi-signature contract: the
  first byte of the one is \<open>PUSHDATA1\<close>, the first byte of the other is a numeric push.
\<close>

theorem templates_exclusive:
  assumes "distinct_opcodes T"
  shows "\<not> (IsSignatureContract T b = Inr True \<and> IsMultiSigContract T b = Inr True) \<and>
    (IsSignatureContract T b = Inr True \<longrightarrow> b ! 0 = PUSHDATA1 T) \<and>
    (IsMultiSigContract T b = Inr True \<longrightarrow>
       b ! 0 \<in> set (PUSHn T) \<or> b ! 0 = PUSHBYTES1 T \<or> b ! 0 = PUSHBYTES2 T) \<and>
    PUSHDATA1 T \<notin> set (PUSHn T) \<and> PUSHDATA1 T \<noteq> PUSHBYTES1 T \<and> PUSHDATA1 T \<noteq> PUSHBYTES2 T"
proof -
  note D = distinct_opcodesD[OF assms]
  have s: "b ! 0 = PUSHDATA1 T" if "IsSignatureContract T b = Inr True"
    using that by (simp add: IsSig_eq[OF assms] signature_template_layout signature_layout_def)
  have m: "b ! 0 \<in> set (PUSHn T) \<or> b ! 0 = PUSHBYTES1 T \<or> b ! 0 = PUSHBYTES2 T"
    if "IsMultiSigContract T b = Inr True"
  proof -
    from that obtain m n keys where "numpush_ok m" "b = multisig_script T m keys n"
      by (auto simp: IsMultiSig_eq[OF assms] multisig_template_def)
    then show ?thesis
      by (cases m) (auto simp: multisig_script_def push_bytes_def PUSH_in_PUSHn)
  qed
  from s m D show ?thesis by metis
qed

theorem templates_exclusive_witness:
  "IsSignatureContract sample_consts
     ([0x4C, 0x21] @ replicate 33 2 @ [0x50, 0x68, 0x04, 0x03, 0x02, 0x01]) = Inr True \<and>
   IsMultiSigContract sample_consts
     ([0x4C, 0x21] @ replicate 33 2 @ [0x50, 0x68, 0x04, 0x03, 0x02, 0x01]) \<noteq> Inr True"
proof -
  let ?s = "[0x4C, 0x21] @ replicate 33 2 @ [0x50, 0x68, 0x04, 0x03, 0x02, 0x01 :: byte]"
  have "IsSignatureContract sample_consts ?s = Inr True" by code_simp
  then show ?thesis using templates_exclusive[OF distinct_sample, of ?s] by simp
qed

end
